theory Spec2Isabelle
  imports Main "HOL-Library.Word"
begin

section \<open>Data model of \<^verbatim>\<open>log.c\<close>\<close>

text \<open>
  Pointers (function pointers and \<^verbatim>\<open>void *\<close> user data) are addresses; the null pointer is
  address 0.  The target is a 32-bit ARM core (the transport is the ARM semihosting
  trap), so \<^verbatim>\<open>int\<close> is a 32-bit signed and \<^verbatim>\<open>size_t\<close> a 32-bit unsigned integer.
\<close>

type_synonym ptr = nat

definition NULL :: ptr where
  "NULL = 0"

definition MAX_CALLBACKS :: nat where
  "MAX_CALLBACKS = 32"

text \<open>\<^verbatim>\<open>struct tm\<close>, as far as \<^verbatim>\<open>"%H:%M:%S"\<close> reads it.\<close>

record tm =
  tm_hour :: nat
  tm_min :: nat
  tm_sec :: nat

text \<open>The variadic arguments of one call, as the values a \<^verbatim>\<open>va_list\<close> walks over.\<close>

datatype c_arg = IntArg int | StrArg string | CharArg char | PtrArg ptr

text \<open>
  \<^verbatim>\<open>log_Event\<close> is declared in \<^verbatim>\<open>log.h\<close>; its fields are the ones \<^verbatim>\<open>log.c\<close> reads and
  writes.  \<^verbatim>\<open>time\<close> is a pointer that is null until \<^verbatim>\<open>init_event\<close> fills it.  The line
  number is printed, so it is a 32-bit word, read as signed; levels are only compared.
\<close>

record log_Event =
  ev_ap :: "c_arg list"
  ev_fmt :: string
  ev_file :: string
  ev_time :: "tm option"
  ev_udata :: ptr
  ev_line :: "32 word"
  ev_level :: int

record Callback =
  cb_fn :: ptr
  cb_udata :: ptr
  cb_level :: int

text \<open>
  The program state: the static struct \<^verbatim>\<open>L\<close> and the static buffer \<^verbatim>\<open>buf\<close> of
  \<^verbatim>\<open>stdout_callback\<close>.  Both arrays are maps from the index to the element; the code
  reads \<^verbatim>\<open>callbacks\<close> only below \<^verbatim>\<open>MAX_CALLBACKS\<close>.
\<close>

record log_state =
  L_udata :: ptr
  L_lock :: ptr
  L_level :: int
  L_quiet :: bool
  L_callbacks :: "nat \<Rightarrow> Callback"
  stdout_buf :: "int \<Rightarrow> char"

definition NUL :: char where
  "NUL = CHR 0x00"

text \<open>Static storage is zero-initialised.\<close>

definition init_state :: log_state where
  "init_state =
     \<lparr>L_udata = NULL, L_lock = NULL, L_level = 0, L_quiet = False,
      L_callbacks = (\<lambda>_. \<lparr>cb_fn = NULL, cb_udata = NULL, cb_level = 0\<rparr>),
      stdout_buf = (\<lambda>_. NUL)\<rparr>"

definition level_strings :: "string list" where
  "level_strings = [''TRACE'', ''DEBUG'', ''INFO'', ''WARN'', ''ERROR'', ''FATAL'']"

text \<open>
  \<^verbatim>\<open>level_strings[level]\<close>: reading the table outside its six entries is undefined
  behaviour, the value \<open>None\<close> here.
\<close>

definition log_level_string :: "int \<Rightarrow> string option" where
  "log_level_string l =
     (if 0 \<le> l \<and> l < int (length level_strings) then Some (level_strings ! nat l) else None)"

section \<open>Machine arithmetic\<close>

text \<open>Conversion to \<^verbatim>\<open>size_t\<close> (32-bit unsigned) and to \<^verbatim>\<open>int\<close> (32-bit signed).\<close>

definition size_t :: "int \<Rightarrow> int" where
  "size_t x = x mod 2 ^ 32"

definition to_int :: "int \<Rightarrow> int" where
  "to_int x = (x + 2 ^ 31) mod 2 ^ 32 - 2 ^ 31"

section \<open>The formatting buffer\<close>

text \<open>
  The buffer during one run of the formatter: its bytes, and the index of every store
  made so far, in order.  A store is recorded whatever its index is, so that a store
  outside the array shows in \<open>stores\<close>.
\<close>

record wbuf =
  bytes :: "int \<Rightarrow> char"
  stores :: "int list"

definition store :: "int \<Rightarrow> char \<Rightarrow> wbuf \<Rightarrow> wbuf" where
  "store i c b = \<lparr>bytes = (bytes b)(i := c), stores = stores b @ [i]\<rparr>"

text \<open>A library function writing the bytes of \<open>s\<close> from index \<open>p\<close> on.\<close>

fun write_str :: "int \<Rightarrow> string \<Rightarrow> wbuf \<Rightarrow> wbuf" where
  "write_str p [] b = b"
| "write_str p (c # cs) b = write_str (p + 1) cs (store p c b)"

section \<open>The C library functions the formatter calls\<close>

definition digit :: "nat \<Rightarrow> char" where
  "digit n = char_of (48 + n)"

definition two_digits :: "nat \<Rightarrow> string" where
  "two_digits n = [digit (n div 10 mod 10), digit (n mod 10)]"

text \<open>The text \<^verbatim>\<open>"%H:%M:%S"\<close> stands for.\<close>

definition hms :: "tm \<Rightarrow> string" where
  "hms t = two_digits (tm_hour t) @ '':'' @ two_digits (tm_min t) @ '':'' @ two_digits (tm_sec t)"

text \<open>
  \<^verbatim>\<open>strftime(buf + p, maxsize, "%H:%M:%S", t)\<close>: when the text and its terminating NUL fit
  in \<open>maxsize\<close> bytes they are written and the length of the text is returned; otherwise
  0 is returned (the array is left as it is, one of the contents C allows).
\<close>

definition strftime_HMS :: "int \<Rightarrow> int \<Rightarrow> tm \<Rightarrow> wbuf \<Rightarrow> wbuf \<times> int" where
  "strftime_HMS p maxsize t b =
     (if int (length (hms t)) + 1 \<le> maxsize
      then (write_str p (hms t @ [NUL]) b, int (length (hms t)))
      else (b, 0))"

fun dec_nat :: "nat \<Rightarrow> string" where
  "dec_nat n = (if n < 10 then [digit n] else dec_nat (n div 10) @ [digit (n mod 10)])"

text \<open>The text \<^verbatim>\<open>"%d"\<close> stands for.\<close>

definition dec_int :: "int \<Rightarrow> string" where
  "dec_int i = (if i < 0 then CHR ''-'' # dec_nat (nat (- i)) else dec_nat (nat i))"

text \<open>
  \<^verbatim>\<open>snprintf\<close> and \<^verbatim>\<open>vsnprintf\<close> on an expansion \<open>s\<close>: with a size of 0 nothing is
  written; otherwise at most \<open>size - 1\<close> bytes of \<open>s\<close> and a terminating NUL are.  The
  value returned is the length of the whole expansion.
\<close>

definition bounded_write :: "int \<Rightarrow> int \<Rightarrow> string \<Rightarrow> wbuf \<Rightarrow> wbuf" where
  "bounded_write p sz s b =
     (if sz = 0 then b else write_str p (take (nat (sz - 1)) s @ [NUL]) b)"

definition snprintf_d :: "int \<Rightarrow> int \<Rightarrow> 32 word \<Rightarrow> wbuf \<Rightarrow> wbuf \<times> int" where
  "snprintf_d p sz n b =
     (bounded_write p sz (dec_int (sint n)) b, int (length (dec_int (sint n))))"

text \<open>
  \<^verbatim>\<open>vsnprintf\<close>: \<open>e\<close> is the expansion of the format with its arguments, \<open>None\<close> when the
  library reports an error.  An error, and an expansion too long for the \<^verbatim>\<open>int\<close> it
  returns, give a negative value.
\<close>

definition vsnprintf :: "int \<Rightarrow> int \<Rightarrow> string option \<Rightarrow> wbuf \<Rightarrow> wbuf \<times> int" where
  "vsnprintf p sz e b =
     (case e of
        None \<Rightarrow> (b, - 1)
      | Some s \<Rightarrow>
          if 2 ^ 31 \<le> int (length s) then (b, - 1)
          else (bounded_write p sz s b, int (length s)))"

section \<open>\<^verbatim>\<open>stdout_callback\<close>\<close>

text \<open>\<^verbatim>\<open>if (pos < sizeof(buf) - 1) buf[pos++] = c;\<close> with \<open>C\<close> the value of \<^verbatim>\<open>LOG_BUFFER_SIZE\<close>.\<close>

definition put_if_room :: "nat \<Rightarrow> char \<Rightarrow> wbuf \<times> int \<Rightarrow> wbuf \<times> int" where
  "put_if_room C c = (\<lambda>(b, pos).
     if size_t pos < size_t (int C - 1) then (store pos c b, to_int (pos + 1)) else (b, pos))"

text \<open>\<^verbatim>\<open>while (*s && pos < sizeof(buf) - 1) buf[pos++] = *s++;\<close>\<close>

fun copy_str :: "nat \<Rightarrow> string \<Rightarrow> wbuf \<times> int \<Rightarrow> wbuf \<times> int" where
  "copy_str C [] bp = bp"
| "copy_str C (c # cs) (b, pos) =
     (if c \<noteq> NUL \<and> size_t pos < size_t (int C - 1)
      then copy_str C cs (store pos c b, to_int (pos + 1))
      else (b, pos))"

text \<open>Lines 91 to 108: time, level, file and line number.\<close>

definition fmt_header :: "nat \<Rightarrow> tm \<Rightarrow> string \<Rightarrow> string \<Rightarrow> 32 word \<Rightarrow> wbuf \<Rightarrow> wbuf \<times> int" where
  "fmt_header C t level_str file line b0 =
     (let (b1, n1) = strftime_HMS 0 (size_t (int C - 0)) t b0;
          s1 = (b1, to_int (size_t (0 + n1)));
          s2 = put_if_room C (CHR '' '') s1;
          s3 = copy_str C level_str s2;
          s4 = put_if_room C (CHR '' '') s3;
          s5 = copy_str C file s4;
          (b6, pos6) = put_if_room C (CHR '':'') s5;
          (b7, n7) = snprintf_d pos6 (size_t (int C - pos6)) line b6;
          s7 = (b7, to_int (pos6 + n7));
          s8 = put_if_room C (CHR '':'') s7
      in put_if_room C (CHR '' '') s8)"

text \<open>Lines 110 to 116: the message, cut to the room that is left.\<close>

definition fmt_message :: "nat \<Rightarrow> string option \<Rightarrow> wbuf \<times> int \<Rightarrow> wbuf \<times> int" where
  "fmt_message C e = (\<lambda>(b, pos).
     if size_t pos < size_t (int C) then
       (let remaining = to_int (size_t (int C - pos));
            (b', msg_len) = vsnprintf pos (size_t remaining) e b
        in if msg_len \<ge> 0
           then (b', to_int (pos + (if msg_len < remaining then msg_len else remaining - 1)))
           else (b', pos))
     else (b, pos))"

text \<open>Lines 118 to 121: the newline.\<close>

definition fmt_newline :: "nat \<Rightarrow> wbuf \<times> int \<Rightarrow> wbuf \<times> int" where
  "fmt_newline C = (\<lambda>(b, pos).
     (let pos' = (if size_t pos \<ge> size_t (int C - 1) then to_int (size_t (int C - 2)) else pos)
      in (store pos' (CHR 0x0A) b, to_int (pos' + 1))))"

text \<open>
  The body of \<^verbatim>\<open>stdout_callback\<close> up to the call of the transport: the buffer and the
  final \<^verbatim>\<open>pos\<close>.  \<open>vfmt\<close> is the C library's expansion of a format string with its
  arguments.  A null \<^verbatim>\<open>ev->time\<close> and a level outside the table are undefined behaviour.
\<close>

definition stdout_format ::
  "nat \<Rightarrow> (string \<Rightarrow> c_arg list \<Rightarrow> string option) \<Rightarrow> (int \<Rightarrow> char) \<Rightarrow> log_Event \<Rightarrow> (wbuf \<times> int) option" where
  "stdout_format C vfmt buf ev =
     (case ev_time ev of
        None \<Rightarrow> None
      | Some t \<Rightarrow>
          (case log_level_string (ev_level ev) of
             None \<Rightarrow> None
           | Some level_str \<Rightarrow>
               Some (fmt_newline C (fmt_message C (vfmt (ev_fmt ev) (ev_ap ev))
                 (fmt_header C t level_str (ev_file ev) (ev_line ev) \<lparr>bytes = buf, stores = []\<rparr>)))))"

text \<open>The bytes \<^verbatim>\<open>semihosting_write(buf, length)\<close> hands to the host.\<close>

definition semihosting_write :: "(int \<Rightarrow> char) \<Rightarrow> int \<Rightarrow> string" where
  "semihosting_write buf len = map buf [0 .. len - 1]"

text \<open>
  \<^verbatim>\<open>stdout_callback\<close>: the buffer it leaves and the line it emits.  A store outside the
  array is undefined behaviour.
\<close>

definition stdout_callback ::
  "nat \<Rightarrow> (string \<Rightarrow> c_arg list \<Rightarrow> string option) \<Rightarrow> (int \<Rightarrow> char) \<Rightarrow> log_Event \<Rightarrow> ((int \<Rightarrow> char) \<times> string) option" where
  "stdout_callback C vfmt buf ev =
     (case stdout_format C vfmt buf ev of
        None \<Rightarrow> None
      | Some (w, pos) \<Rightarrow>
          if list_all (\<lambda>i. 0 \<le> i \<and> i < int C) (stores w)
          then Some (bytes w, semihosting_write (bytes w) pos)
          else None)"

section \<open>Setters and the callback registry\<close>

definition log_set_lock :: "ptr \<Rightarrow> ptr \<Rightarrow> log_state \<Rightarrow> log_state" where
  "log_set_lock fn udata L = L\<lparr>L_lock := fn, L_udata := udata\<rparr>"

definition log_set_level :: "int \<Rightarrow> log_state \<Rightarrow> log_state" where
  "log_set_level level L = L\<lparr>L_level := level\<rparr>"

definition log_set_quiet :: "bool \<Rightarrow> log_state \<Rightarrow> log_state" where
  "log_set_quiet enable L = L\<lparr>L_quiet := enable\<rparr>"

text \<open>
  The loop of \<^verbatim>\<open>log_add_callback\<close> from index \<open>i\<close> on: the new state and the value
  returned.
\<close>

function add_callback_from :: "nat \<Rightarrow> Callback \<Rightarrow> log_state \<Rightarrow> log_state \<times> int" where
  "add_callback_from i cb L =
     (if i < MAX_CALLBACKS then
        (if cb_fn (L_callbacks L i) = NULL
         then (L\<lparr>L_callbacks := (L_callbacks L)(i := cb)\<rparr>, 0)
         else add_callback_from (i + 1) cb L)
      else (L, - 1))"
  by pat_completeness auto
termination
  by (relation "measure (\<lambda>(i, cb, L). MAX_CALLBACKS - i)") auto

declare add_callback_from.simps [simp del]

definition log_add_callback :: "ptr \<Rightarrow> ptr \<Rightarrow> int \<Rightarrow> log_state \<Rightarrow> log_state \<times> int" where
  "log_add_callback fn udata level L =
     add_callback_from 0 \<lparr>cb_fn = fn, cb_udata = udata, cb_level = level\<rparr> L"

section \<open>The dispatcher\<close>

text \<open>
  What one call of \<^verbatim>\<open>log_log\<close> does, in order: calls of the lock hook, reads of the
  quiet flag, of the threshold and of a registry slot, calls of the time source, the
  write to the transport and calls of observers.  The hook, the time source, the
  transport and the observers are code outside \<^verbatim>\<open>log.c\<close>: a call is recorded with its
  arguments, and it is taken to leave the logger's state and the event as they are.
  The reads \<^verbatim>\<open>lock\<close> and \<^verbatim>\<open>unlock\<close> make of the hook and its user data are not recorded.
\<close>

datatype shared = Quiet | Threshold | Slot nat

datatype event =
    LockCall ptr bool ptr
  | Read shared
  | TimeCall
  | SysWrite string
  | ObserverCall ptr log_Event

definition lock :: "log_state \<Rightarrow> event list" where
  "lock L = (if L_lock L \<noteq> NULL then [LockCall (L_lock L) True (L_udata L)] else [])"

definition unlock :: "log_state \<Rightarrow> event list" where
  "unlock L = (if L_lock L \<noteq> NULL then [LockCall (L_lock L) False (L_udata L)] else [])"

text \<open>\<open>now\<close> is what \<^verbatim>\<open>localtime\<close> gives for the value of \<^verbatim>\<open>time(NULL)\<close>.\<close>

definition init_event :: "tm \<Rightarrow> log_Event \<Rightarrow> ptr \<Rightarrow> log_Event \<times> event list" where
  "init_event now ev udata =
     (case ev_time ev of
        None \<Rightarrow> (ev\<lparr>ev_time := Some now, ev_udata := udata\<rparr>, [TimeCall])
      | Some _ \<Rightarrow> (ev\<lparr>ev_udata := udata\<rparr>, []))"

text \<open>The loop over the registry (lines 195 to 203), from index \<open>i\<close> on.\<close>

function dispatch_from :: "tm \<Rightarrow> log_state \<Rightarrow> int \<Rightarrow> nat \<Rightarrow> log_Event \<Rightarrow> event list" where
  "dispatch_from now L level i ev =
     (if i < MAX_CALLBACKS then
        Read (Slot i) #
        (if cb_fn (L_callbacks L i) \<noteq> NULL then
           (if level \<ge> cb_level (L_callbacks L i) then
              (case init_event now ev (cb_udata (L_callbacks L i)) of
                 (ev', t) \<Rightarrow>
                   t @ ObserverCall (cb_fn (L_callbacks L i)) ev' #
                   dispatch_from now L level (i + 1) ev')
            else dispatch_from now L level (i + 1) ev)
         else [])
      else [])"
  by pat_completeness auto
termination
  by (relation "measure (\<lambda>(now, L, level, i, ev). MAX_CALLBACKS - i)") auto

declare dispatch_from.simps [simp del]

text \<open>
  The event \<^verbatim>\<open>log_log\<close> builds from its arguments (lines 179 to 184); the fields the
  initialiser leaves out are zero.
\<close>

definition new_event :: "int \<Rightarrow> string \<Rightarrow> 32 word \<Rightarrow> string \<Rightarrow> c_arg list \<Rightarrow> log_Event" where
  "new_event level file line fmt ap =
     \<lparr>ev_ap = ap, ev_fmt = fmt, ev_file = file, ev_time = None, ev_udata = NULL,
      ev_line = line, ev_level = level\<rparr>"

text \<open>
  \<^verbatim>\<open>log_log\<close>: the trace of the call and the state it leaves, \<open>None\<close> when the call runs
  into undefined behaviour.  \<open>C\<close> is \<^verbatim>\<open>LOG_BUFFER_SIZE\<close> and \<open>vfmt\<close> the library's expansion
  of a format string, both from outside \<^verbatim>\<open>log.c\<close>.  The test of line 188 reads the
  threshold only when the quiet flag is clear.
\<close>

definition log_log ::
  "nat \<Rightarrow> (string \<Rightarrow> c_arg list \<Rightarrow> string option) \<Rightarrow> tm \<Rightarrow> log_state \<Rightarrow>
     int \<Rightarrow> string \<Rightarrow> 32 word \<Rightarrow> string \<Rightarrow> c_arg list \<Rightarrow> (event list \<times> log_state) option" where
  "log_log C vfmt now L level file line fmt ap =
     (let ev = new_event level file line fmt ap;
          test = Read Quiet # (if L_quiet L then [] else [Read Threshold])
      in if \<not> L_quiet L \<and> level \<ge> L_level L then
           (let (ev', t) = init_event now ev NULL
            in case stdout_callback C vfmt (stdout_buf L) ev' of
                 None \<Rightarrow> None
               | Some (buf', out) \<Rightarrow>
                   Some (lock L @ test @ t @ [SysWrite out] @
                           dispatch_from now L level 0 ev' @ unlock L,
                         L\<lparr>stdout_buf := buf'\<rparr>))
         else Some (lock L @ test @ dispatch_from now L level 0 ev @ unlock L, L))"

section \<open>Sequences of calls of the public operations\<close>

datatype api_call =
    SetLock ptr ptr
  | SetLevel int
  | SetQuiet bool
  | AddCallback ptr ptr int
  | Log int string "32 word" string "c_arg list" tm

fun exec :: "nat \<Rightarrow> (string \<Rightarrow> c_arg list \<Rightarrow> string option) \<Rightarrow> log_state \<Rightarrow> api_call \<Rightarrow> log_state option" where
  "exec C vfmt L (SetLock fn udata) = Some (log_set_lock fn udata L)"
| "exec C vfmt L (SetLevel level) = Some (log_set_level level L)"
| "exec C vfmt L (SetQuiet enable) = Some (log_set_quiet enable L)"
| "exec C vfmt L (AddCallback fn udata level) = Some (fst (log_add_callback fn udata level L))"
| "exec C vfmt L (Log level file line fmt ap now) =
     map_option snd (log_log C vfmt now L level file line fmt ap)"

fun run :: "nat \<Rightarrow> (string \<Rightarrow> c_arg list \<Rightarrow> string option) \<Rightarrow> log_state \<Rightarrow> api_call list \<Rightarrow> log_state option" where
  "run C vfmt L [] = Some L"
| "run C vfmt L (c # cs) =
     (case exec C vfmt L c of None \<Rightarrow> None | Some L' \<Rightarrow> run C vfmt L' cs)"

section \<open>Reading a state and a trace\<close>

text \<open>
  The entries the loop of \<^verbatim>\<open>log_log\<close> reaches: the slots before the first one whose
  \<^verbatim>\<open>fn\<close> is null.
\<close>

definition registered :: "log_state \<Rightarrow> Callback list" where
  "registered L =
     takeWhile (\<lambda>cb. cb_fn cb \<noteq> NULL) (map (L_callbacks L) [0 ..< MAX_CALLBACKS])"

text \<open>The observer calls of a trace, in order: the function called and the event passed.\<close>

fun observer_calls :: "event list \<Rightarrow> (ptr \<times> log_Event) list" where
  "observer_calls [] = []"
| "observer_calls (ObserverCall f ev # tr) = (f, ev) # observer_calls tr"
| "observer_calls (_ # tr) = observer_calls tr"

fun is_SysWrite :: "event \<Rightarrow> bool" where
  "is_SysWrite (SysWrite _) = True"
| "is_SysWrite _ = False"

fun is_ObserverCall :: "event \<Rightarrow> bool" where
  "is_ObserverCall (ObserverCall _ _) = True"
| "is_ObserverCall _ = False"

fun is_LockCall :: "event \<Rightarrow> bool" where
  "is_LockCall (LockCall _ _ _) = True"
| "is_LockCall _ = False"

section \<open>The line of the wire format\<close>

text \<open>The bytes of a C string: those before its terminating NUL.\<close>

definition c_str :: "string \<Rightarrow> string" where
  "c_str s = takeWhile (\<lambda>c. c \<noteq> NUL) s"

text \<open>The message \<^verbatim>\<open>vsnprintf\<close> contributes: nothing when it reports an error.\<close>

definition msg_text :: "string option \<Rightarrow> string" where
  "msg_text e = (case e of None \<Rightarrow> [] | Some m \<Rightarrow> if 2 ^ 31 \<le> int (length m) then [] else m)"

text \<open>
  The line as the wire format words it, \<^verbatim>\<open>HH:MM:SS LEVEL file:line: message\<close>, before it
  is cut to the buffer and closed by the newline.
\<close>

definition line_text :: "tm \<Rightarrow> string \<Rightarrow> string \<Rightarrow> 32 word \<Rightarrow> string option \<Rightarrow> string" where
  "line_text t lvl file line e =
     hms t @ '' '' @ c_str lvl @ '' '' @ c_str file @ '':'' @ dec_int (sint line) @ '': '' @ msg_text e"

text \<open>
  The LEVEL field of a rendered line: what stands between the space after the eight
  characters of the time and the next space.
\<close>

definition level_field :: "string \<Rightarrow> string" where
  "level_field ln = takeWhile (\<lambda>c. c \<noteq> CHR '' '') (drop 9 ln)"

section \<open>Invariants of the formatter\<close>

text \<open>Every store made so far went to an index of the array.\<close>

definition in_bounds :: "nat \<Rightarrow> wbuf \<Rightarrow> bool" where
  "in_bounds C b = list_all (\<lambda>i. 0 \<le> i \<and> i < int C) (stores b)"

text \<open>The stores are in bounds and \<^verbatim>\<open>pos\<close> lies between 0 and \<open>hi\<close>.\<close>

definition fmt_inv :: "nat \<Rightarrow> int \<Rightarrow> wbuf \<times> int \<Rightarrow> bool" where
  "fmt_inv C hi = (\<lambda>(b, pos). in_bounds C b \<and> 0 \<le> pos \<and> pos \<le> hi)"

text \<open>
  The buffer holds the text \<open>X\<close> as far as it has room for it: \<^verbatim>\<open>pos\<close> is the length of
  \<open>X\<close>, or both have reached the last index but one; and the bytes below that index are
  those of \<open>X\<close>.
\<close>

definition holds :: "nat \<Rightarrow> string \<Rightarrow> wbuf \<times> int \<Rightarrow> bool" where
  "holds C X = (\<lambda>(b, pos).
     (pos = int (length X) \<or> (int C - 1 \<le> pos \<and> C - 1 \<le> length X)) \<and>
     (\<forall>i. i < length X \<and> i < C - 1 \<longrightarrow> bytes b (int i) = X ! i))"

section \<open>The history of registrations\<close>

text \<open>
  The entries a sequence of calls registers with a function that is not null, in the
  order of the calls.
\<close>

fun additions :: "api_call list \<Rightarrow> Callback list" where
  "additions [] = []"
| "additions (AddCallback fn udata level # cs) =
     (if fn \<noteq> NULL then \<lparr>cb_fn = fn, cb_udata = udata, cb_level = level\<rparr> # additions cs
      else additions cs)"
| "additions (_ # cs) = additions cs"

text \<open>The first \<open>n\<close> slots of the table are occupied and the others are not.\<close>

definition filled :: "nat \<Rightarrow> log_state \<Rightarrow> bool" where
  "filled n L = (n \<le> MAX_CALLBACKS \<and> (\<forall>i<n. cb_fn (L_callbacks L i) \<noteq> NULL) \<and>
     (\<forall>i. n \<le> i \<and> i < MAX_CALLBACKS \<longrightarrow> cb_fn (L_callbacks L i) = NULL))"

section \<open>Example inputs\<close>

text \<open>A time of day, and the expansion of a format that has no conversion specification.\<close>

definition noon :: tm where
  "noon = \<lparr>tm_hour = 12, tm_min = 34, tm_sec = 56\<rparr>"

definition plain_vfmt :: "string \<Rightarrow> c_arg list \<Rightarrow> string option" where
  "plain_vfmt fmt ap = Some fmt"

text \<open>An event of level 2 and one of level 4 whose message has 40 characters.\<close>

definition info_event :: log_Event where
  "info_event = (new_event 2 ''main.c'' 11 ''started'' [])\<lparr>ev_time := Some noon\<rparr>"

definition long_event :: log_Event where
  "long_event =
     (new_event 4 ''main.c'' 11 ''0123456789012345678901234567890123456789'' [])\<lparr>ev_time := Some noon\<rparr>"

text \<open>
  A state with two observers, of minimum levels 3 and 4; the same state with a lock hook;
  and a state whose table holds 32 entries.
\<close>

definition two_observers :: log_state where
  "two_observers = init_state\<lparr>L_callbacks :=
     (L_callbacks init_state)
       (0 := \<lparr>cb_fn = 100, cb_udata = 1, cb_level = 3\<rparr>,
        1 := \<lparr>cb_fn = 200, cb_udata = 2, cb_level = 4\<rparr>)\<rparr>"

definition locked_state :: log_state where
  "locked_state = two_observers\<lparr>L_lock := 500, L_udata := 9\<rparr>"

definition full_state :: log_state where
  "full_state = init_state\<lparr>L_callbacks := (\<lambda>i. \<lparr>cb_fn = Suc i, cb_udata = NULL, cb_level = 0\<rparr>)\<rparr>"

text \<open>
  A sequence of calls: two registrations with a null registration and a log call between
  them, and the setters.
\<close>

definition setup_calls :: "api_call list" where
  "setup_calls =
     [SetLevel 1, SetQuiet True, AddCallback 100 1 3, AddCallback NULL 5 0,
      Log 2 ''main.c'' 11 ''started'' [] noon, AddCallback 200 2 4, SetQuiet False,
      SetLock 500 9]"

section \<open>Facts about the arithmetic, the buffer and the formatter\<close>

lemma size_t_id: "0 \<le> x \<Longrightarrow> x < 2 ^ 32 \<Longrightarrow> size_t x = x"
  by (simp add: size_t_def)

lemma to_int_id: "- (2 ^ 31) \<le> x \<Longrightarrow> x < 2 ^ 31 \<Longrightarrow> to_int x = x"
  by (simp add: to_int_def)

lemma stores_store: "stores (store i c b) = stores b @ [i]"
  by (simp add: store_def)

lemma bytes_store: "bytes (store i c b) = (bytes b)(i := c)"
  by (simp add: store_def)

lemma stores_write_str: "stores (write_str p s b) = stores b @ map (\<lambda>k. p + int k) [0 ..< length s]"
proof (induction s arbitrary: p b)
  case Nil
  then show ?case by simp
next
  case (Cons c cs)
  have "map (\<lambda>k. p + int k) [0 ..< Suc (length cs)] = p # map (\<lambda>k. p + 1 + int k) [0 ..< length cs]"
    by (simp add: upt_conv_Cons map_Suc_upt [symmetric] del: upt_Suc) 
  then show ?case using Cons.IH [of "p + 1" "store p c b"] by (simp add: stores_store)
qed

lemma bytes_write_str_below: "i < p \<Longrightarrow> bytes (write_str p s b) i = bytes b i"
  by (induction s arbitrary: p b) (simp_all add: bytes_store)

lemma bytes_write_str_at:
  "0 \<le> k \<Longrightarrow> k < int (length s) \<Longrightarrow> bytes (write_str p s b) (p + k) = s ! nat k"
proof (induction s arbitrary: p b k)
  case Nil
  then show ?case by simp
next
  case (Cons c cs)
  show ?case
  proof (cases "k = 0")
    case True
    then show ?thesis by (simp add: bytes_write_str_below bytes_store)
  next
    case False
    with Cons.prems have "0 \<le> k - 1" "k - 1 < int (length cs)" by simp_all
    from Cons.IH [OF this, of "p + 1" "store p c b"] False Cons.prems
    show ?thesis by (simp add: nth_Cons' nat_diff_distrib)
  qed
qed

lemma in_bounds_store: "in_bounds C b \<Longrightarrow> 0 \<le> i \<Longrightarrow> i < int C \<Longrightarrow> in_bounds C (store i c b)"
  by (simp add: in_bounds_def stores_store)

lemma in_bounds_write_str:
  "in_bounds C b \<Longrightarrow> 0 \<le> p \<Longrightarrow> p + int (length s) \<le> int C \<Longrightarrow> in_bounds C (write_str p s b)"
  by (auto simp add: in_bounds_def stores_write_str list_all_iff)


lemma put_if_room_plain:
  assumes "2 \<le> C" "int C + 10 < 2 ^ 31" "0 \<le> pos" "pos \<le> int C + 10"
  shows "put_if_room C c (b, pos) = (if pos < int C - 1 then (store pos c b, pos + 1) else (b, pos))"
proof -
  have "size_t pos = pos" using assms by (intro size_t_id) simp_all
  moreover have "size_t (int C - 1) = int C - 1" using assms by (intro size_t_id) simp_all
  moreover have "pos < int C - 1 \<Longrightarrow> to_int (pos + 1) = pos + 1"
    using assms by (intro to_int_id) simp_all
  ultimately show ?thesis by (simp add: put_if_room_def)
qed

lemma put_if_room_inv:
  assumes cap: "2 \<le> C" "int C + 10 < 2 ^ 31"
    and hi: "int C - 1 \<le> hi" "hi \<le> int C + 10"
    and i0: "fmt_inv C hi s"
  shows "fmt_inv C hi (put_if_room C c s)"
proof -
  obtain b pos where s: "s = (b, pos)" by (cases s)
  with i0 have *: "in_bounds C b" "0 \<le> pos" "pos \<le> hi"
    by (simp_all add: fmt_inv_def)
  have eq: "put_if_room C c (b, pos) = (if pos < int C - 1 then (store pos c b, pos + 1) else (b, pos))"
    using cap hi * by (intro put_if_room_plain) simp_all
  show ?thesis
  proof (cases "pos < int C - 1")
    case True
    then have "in_bounds C (store pos c b)" using * by (intro in_bounds_store) simp_all
    then show ?thesis using True * hi by (simp add: s eq fmt_inv_def bytes_store)
  next
    case False
    then show ?thesis using i0 by (simp add: s eq)
  qed
qed

lemma copy_str_inv:
  assumes cap: "2 \<le> C" "int C + 10 < 2 ^ 31"
    and hi: "int C - 1 \<le> hi" "hi \<le> int C + 10"
  shows "fmt_inv C hi s \<Longrightarrow> fmt_inv C hi (copy_str C str s)"
proof (induction str arbitrary: s)
  case Nil
  then show ?case by simp
next
  case (Cons c cs)
  obtain b pos where s: "s = (b, pos)" by (cases s)
  show ?case
  proof (cases "c \<noteq> NUL \<and> size_t pos < size_t (int C - 1)")
    case True
    then have "put_if_room C c (b, pos) = (store pos c b, to_int (pos + 1))"
      by (simp add: put_if_room_def)
    with put_if_room_inv [OF cap hi Cons.prems, of c]
    have "fmt_inv C hi (store pos c b, to_int (pos + 1))" by (simp add: s)
    from Cons.IH [OF this] True show ?thesis by (simp add: s)
  next
    case False
    then have "copy_str C (c # cs) (b, pos) = (b, pos)" by auto
    with Cons.prems show ?thesis by (simp add: s)
  qed
qed


lemma length_hms: "length (hms t) = 8"
  by (simp add: hms_def two_digits_def)

lemma length_dec_nat: "0 < d \<Longrightarrow> n < 10 ^ d \<Longrightarrow> length (dec_nat n) \<le> d"
proof (induction n arbitrary: d rule: dec_nat.induct)
  case (1 n)
  show ?case
  proof (cases "n < 10")
    case True
    then show ?thesis using "1.prems" by simp
  next
    case False
    then obtain d' where d: "d = Suc d'" "0 < d'"
      using "1.prems" by (cases d; cases "d - 1") auto
    with "1.prems" have "n div 10 < 10 ^ d'"
      by (simp add: less_mult_imp_div_less mult.commute)
    from "1.IH" [OF False \<open>0 < d'\<close> this] False d show ?thesis
      by (subst dec_nat.simps) simp
  qed
qed

lemma length_dec_int_sint: "length (dec_int (sint (n :: 32 word))) \<le> 11"
proof -
  have lo: "- (2 ^ 31) \<le> sint n" using sint_ge [of n] by simp
  have hi: "sint n < 2 ^ 31" using sint_lt [of n] by simp
  show ?thesis
  proof (cases "sint n < 0")
    case True
    with lo have "nat (- sint n) < 10 ^ 10" by simp
    then have "length (dec_nat (nat (- sint n))) \<le> 10" by (intro length_dec_nat) simp_all
    with True show ?thesis by (simp add: dec_int_def)
  next
    case False
    with hi have "nat (sint n) < 10 ^ 10" by simp
    then have "length (dec_nat (nat (sint n))) \<le> 10" by (intro length_dec_nat) simp_all
    with False show ?thesis by (simp add: dec_int_def)
  qed
qed

lemma bounded_write_inv:
  assumes "in_bounds C b" "0 \<le> p" "0 < sz" "p + sz \<le> int C"
  shows "in_bounds C (bounded_write p sz s b)"
    and "i < p \<Longrightarrow> bytes (bounded_write p sz s b) i = bytes b i"
proof -
  have "int (length (take (nat (sz - 1)) s @ [NUL])) \<le> sz" using assms by simp
  then show "in_bounds C (bounded_write p sz s b)"
    using assms unfolding bounded_write_def
    by (auto intro!: in_bounds_write_str simp del: length_take length_append)
  show "i < p \<Longrightarrow> bytes (bounded_write p sz s b) i = bytes b i"
    by (simp add: bounded_write_def bytes_write_str_below)
qed

lemma strftime_step_inv:
  assumes cap: "2 \<le> C" "int C + 10 < 2 ^ 31"
  shows "fmt_inv C (int C - 1)
     (fst (strftime_HMS 0 (size_t (int C - 0)) t \<lparr>bytes = buf, stores = []\<rparr>),
      to_int (size_t (0 + snd (strftime_HMS 0 (size_t (int C - 0)) t \<lparr>bytes = buf, stores = []\<rparr>))))"
proof -
  have sz: "size_t (int C - 0) = int C" using cap by (simp add: size_t_id)
  have e: "in_bounds C \<lparr>bytes = buf, stores = []\<rparr>" by (simp add: in_bounds_def)
  show ?thesis
  proof (cases "9 \<le> int C")
    case True
    then have "in_bounds C (write_str 0 (hms t @ [NUL]) \<lparr>bytes = buf, stores = []\<rparr>)"
      by (intro in_bounds_write_str e) (simp_all add: length_hms)
    then show ?thesis using True cap
      by (auto simp add: strftime_HMS_def sz length_hms fmt_inv_def size_t_id to_int_id)
  next
    case False
    then show ?thesis using cap e
      by (auto simp add: strftime_HMS_def sz length_hms fmt_inv_def size_t_id to_int_id)
  qed
qed

lemma snprintf_step_inv:
  assumes cap: "2 \<le> C" "int C + 10 < 2 ^ 31"
    and i0: "fmt_inv C (int C - 1) (b, pos)"
  shows "fmt_inv C (int C + 10)
     (fst (snprintf_d pos (size_t (int C - pos)) line b),
      to_int (pos + snd (snprintf_d pos (size_t (int C - pos)) line b)))"
proof -
  from i0 have *: "in_bounds C b" "0 \<le> pos" "pos \<le> int C - 1"
    by (simp_all add: fmt_inv_def)
  have sz: "size_t (int C - pos) = int C - pos" using cap * by (intro size_t_id) simp_all
  let ?s = "dec_int (sint line)"
  have len: "int (length ?s) \<le> 11" using length_dec_int_sint [of line] by simp
  have ti: "to_int (pos + int (length ?s)) = pos + int (length ?s)"
    using cap * len by (intro to_int_id) simp_all
  have "in_bounds C (bounded_write pos (int C - pos) ?s b)"
    and "\<And>i. i < pos \<Longrightarrow> bytes (bounded_write pos (int C - pos) ?s b) i = bytes b i"
    using * by (simp_all add: bounded_write_inv)
  then show ?thesis using * len by (simp add: snprintf_d_def sz ti fmt_inv_def)
qed


lemma vsnprintf_cases:
  obtains (err) "vsnprintf p sz e b = (b, - 1)"
  | (ok) m where "e = Some m" "int (length m) < 2 ^ 31"
      "vsnprintf p sz e b = (bounded_write p sz m b, int (length m))"
proof (cases e)
  case None
  then have "vsnprintf p sz e b = (b, - 1)" by (simp add: vsnprintf_def)
  then show ?thesis by (rule err)
next
  case (Some m)
  show ?thesis
  proof (cases "2 ^ 31 \<le> int (length m)")
    case True
    with Some have "vsnprintf p sz e b = (b, - 1)" by (simp add: vsnprintf_def)
    then show ?thesis by (rule err)
  next
    case False
    with Some have "vsnprintf p sz e b = (bounded_write p sz m b, int (length m))"
      by (simp add: vsnprintf_def)
    with Some False show ?thesis by (intro ok [of m]) simp_all
  qed
qed

lemma fmt_message_plain:
  assumes "2 \<le> C" "int C + 10 < 2 ^ 31" "0 \<le> pos" "pos \<le> int C + 10"
  shows "fmt_message C e (b, pos) =
     (if pos < int C then
        (if snd (vsnprintf pos (int C - pos) e b) \<ge> 0
         then (fst (vsnprintf pos (int C - pos) e b),
               pos + (if snd (vsnprintf pos (int C - pos) e b) < int C - pos
                      then snd (vsnprintf pos (int C - pos) e b) else int C - pos - 1))
         else (fst (vsnprintf pos (int C - pos) e b), pos))
      else (b, pos))"
proof (cases "pos < int C")
  case True
  have a: "size_t pos = pos" "size_t (int C) = int C" using assms by (simp_all add: size_t_id)
  have r: "size_t (int C - pos) = int C - pos" using assms True by (intro size_t_id) simp_all
  have r': "to_int (int C - pos) = int C - pos" using assms True by (intro to_int_id) simp_all
  have t: "\<And>x. 0 \<le> x \<Longrightarrow> x < int C - pos \<Longrightarrow> to_int (pos + x) = pos + x"
    using assms by (intro to_int_id) simp_all
  have t': "to_int (int C - 1) = int C - 1"
    using assms True by (intro to_int_id) simp_all
  show ?thesis using True
    by (auto simp add: fmt_message_def a r r' t t' Let_def split: prod.splits)
next
  case False
  have a: "size_t pos = pos" "size_t (int C) = int C" using assms by (simp_all add: size_t_id)
  show ?thesis using False by (simp add: fmt_message_def a)
qed

lemma fmt_message_inv:
  assumes cap: "2 \<le> C" "int C + 10 < 2 ^ 31"
    and i0: "fmt_inv C (int C + 10) s"
  shows "fmt_inv C (int C + 10) (fmt_message C e s)"
proof -
  obtain b pos where s: "s = (b, pos)" by (cases s)
  with i0 have *: "in_bounds C b" "0 \<le> pos" "pos \<le> int C + 10"
    by (simp_all add: fmt_inv_def)
  note eq = fmt_message_plain [OF cap *(2,3), of e b]
  show ?thesis
  proof (cases "pos < int C")
    case True
    show ?thesis
    proof (cases rule: vsnprintf_cases [of pos "int C - pos" e b])
      case err
      then show ?thesis using * True unfolding s eq by (simp add: fmt_inv_def)
    next
      case (ok m)
      have "in_bounds C (bounded_write pos (int C - pos) m b)"
        and "\<And>i. i < pos \<Longrightarrow> bytes (bounded_write pos (int C - pos) m b) i = bytes b i"
        using * True by (simp_all add: bounded_write_inv)
      then show ?thesis using * True unfolding s eq ok(3) by (simp add: fmt_inv_def)
    qed
  next
    case False
    then show ?thesis using * unfolding s eq by (simp add: fmt_inv_def)
  qed
qed

lemma fmt_message_long:
  assumes cap: "2 \<le> C" "int C + 10 < 2 ^ 31"
    and pos: "0 \<le> pos" "pos \<le> int C + 10"
    and m: "C \<le> length m" "int (length m) < 2 ^ 31"
  shows "int C - 1 \<le> snd (fmt_message C (Some m) (b, pos))"
proof -
  have v: "vsnprintf pos (int C - pos) (Some m) b =
      (bounded_write pos (int C - pos) m b, int (length m))"
    using m by (simp add: vsnprintf_def)
  show ?thesis using pos m unfolding fmt_message_plain [OF cap pos] v by simp
qed

lemma fmt_newline_plain:
  assumes "2 \<le> C" "int C + 10 < 2 ^ 31" "0 \<le> pos" "pos \<le> int C + 10"
  shows "fmt_newline C (b, pos) =
     (store (if pos \<ge> int C - 1 then int C - 2 else pos) (CHR 0x0A) b,
      (if pos \<ge> int C - 1 then int C - 2 else pos) + 1)"
proof -
  have a: "size_t pos = pos" "size_t (int C - 1) = int C - 1" "size_t (int C - 2) = int C - 2"
    using assms by (simp_all add: size_t_id)
  have b: "to_int (int C - 2) = int C - 2" "to_int (int C - 1) = int C - 1"
    using assms by (simp_all add: to_int_id)
  have c: "\<not> pos \<ge> int C - 1 \<Longrightarrow> to_int (pos + 1) = pos + 1"
    using assms by (intro to_int_id) simp_all
  show ?thesis using c by (auto simp add: fmt_newline_def a b Let_def)
qed

lemma fmt_newline_inv:
  assumes cap: "2 \<le> C" "int C + 10 < 2 ^ 31"
    and i0: "fmt_inv C (int C + 10) s"
  shows "fmt_inv C (int C - 1) (fmt_newline C s)"
    and "0 < snd (fmt_newline C s)"
    and "bytes (fst (fmt_newline C s)) (snd (fmt_newline C s) - 1) = CHR 0x0A"
    and "int C - 1 \<le> snd s \<Longrightarrow> snd (fmt_newline C s) = int C - 1"
proof -
  obtain b pos where s: "s = (b, pos)" by (cases s)
  with i0 have *: "in_bounds C b" "0 \<le> pos" "pos \<le> int C + 10"
    by (simp_all add: fmt_inv_def)
    note eq = fmt_newline_plain [OF cap *(2,3), of b]
  let ?p = "if pos \<ge> int C - 1 then int C - 2 else pos"
  have p: "?p \<le> int C - 2" "0 \<le> ?p" using * cap by auto
  then have "in_bounds C (store ?p (CHR 0x0A) b)" using * by (intro in_bounds_store) simp_all
  then show "fmt_inv C (int C - 1) (fmt_newline C s)"
    using p * unfolding s eq fmt_inv_def by (auto simp add: bytes_store)
  show "0 < snd (fmt_newline C s)"
    using p unfolding s eq by auto
  show "bytes (fst (fmt_newline C s)) (snd (fmt_newline C s) - 1) = CHR 0x0A"
    unfolding s eq by (simp add: bytes_store)
  show "int C - 1 \<le> snd s \<Longrightarrow> snd (fmt_newline C s) = int C - 1"
    unfolding s eq by simp
qed


lemma fmt_header_inv:
  assumes cap: "2 \<le> C" "int C + 10 < 2 ^ 31"
  shows "fmt_inv C (int C + 10) (fmt_header C t lvl file line \<lparr>bytes = buf, stores = []\<rparr>)"
proof -
  note tight = put_if_room_inv [OF cap, of "int C - 1"] copy_str_inv [OF cap, of "int C - 1"]
  note loose = put_if_room_inv [OF cap, of "int C + 10"]
  define s1 where "s1 = (fst (strftime_HMS 0 (size_t (int C - 0)) t \<lparr>bytes = buf, stores = []\<rparr>),
      to_int (size_t (0 + snd (strftime_HMS 0 (size_t (int C - 0)) t \<lparr>bytes = buf, stores = []\<rparr>))))"
  define s6 where "s6 = put_if_room C (CHR '':'') (copy_str C file (put_if_room C (CHR '' '')
      (copy_str C lvl (put_if_room C (CHR '' '') s1))))"
  define s7 where "s7 = (fst (snprintf_d (snd s6) (size_t (int C - snd s6)) line (fst s6)),
      to_int (snd s6 + snd (snprintf_d (snd s6) (size_t (int C - snd s6)) line (fst s6))))"
  have "fmt_inv C (int C - 1) s1" unfolding s1_def by (rule strftime_step_inv [OF cap])
  then have "fmt_inv C (int C - 1) s6" unfolding s6_def by (intro tight) simp_all
  then have "fmt_inv C (int C - 1) (fst s6, snd s6)" by simp
  then have "fmt_inv C (int C + 10) s7" unfolding s7_def by (intro snprintf_step_inv [OF cap]) simp_all
  then have "fmt_inv C (int C + 10) (put_if_room C (CHR '' '') (put_if_room C (CHR '':'') s7))"
    by (intro loose) simp_all
  moreover have "fmt_header C t lvl file line \<lparr>bytes = buf, stores = []\<rparr> =
      put_if_room C (CHR '' '') (put_if_room C (CHR '':'') s7)"
    by (simp add: fmt_header_def s7_def s6_def s1_def Let_def case_prod_beta)
  ultimately show ?thesis by simp
qed

lemma holds_full_append:
  assumes "holds C X (b, pos)" "int C - 1 \<le> pos"
  shows "holds C (X @ Y) (b, pos)"
proof -
  from assms have len: "C - 1 \<le> length X" by (auto simp add: holds_def)
  from assms have "\<forall>i. i < length X \<and> i < C - 1 \<longrightarrow> bytes b (int i) = X ! i"
    by (simp add: holds_def)
  with len assms(2) show ?thesis by (auto simp add: holds_def nth_append)
qed

lemma put_if_room_holds:
  assumes cap: "2 \<le> C" "int C + 10 < 2 ^ 31"
    and i0: "fmt_inv C hi s" and hi: "hi \<le> int C + 10"
    and h: "holds C X s"
  shows "holds C (X @ [c]) (put_if_room C c s)"
proof -
  obtain b pos where s: "s = (b, pos)" by (cases s)
  from i0 hi have pos: "0 \<le> pos" "pos \<le> int C + 10" by (simp_all add: s fmt_inv_def)
  note eq = put_if_room_plain [OF cap pos, of c b]
  show ?thesis
  proof (cases "pos < int C - 1")
    case True
    with h have p: "pos = int (length X)" by (auto simp add: s holds_def)
    from h have "\<forall>i. i < length X \<and> i < C - 1 \<longrightarrow> bytes b (int i) = X ! i"
      by (simp add: s holds_def)
    then show ?thesis using True p unfolding s eq
      by (auto simp add: holds_def bytes_store nth_append)
  next
    case False
    then have "holds C (X @ [c]) (b, pos)" using h by (intro holds_full_append) (simp_all add: s)
    with False show ?thesis unfolding s eq by simp
  qed
qed

lemma copy_str_holds:
  assumes cap: "2 \<le> C" "int C + 10 < 2 ^ 31"
    and hi: "int C - 1 \<le> hi" "hi \<le> int C + 10"
  shows "fmt_inv C hi s \<Longrightarrow> holds C X s \<Longrightarrow>
    holds C (X @ takeWhile (\<lambda>c. c \<noteq> NUL) str) (copy_str C str s)"
proof (induction str arbitrary: s X)
  case Nil
  then show ?case by simp
next
  case (Cons c cs)
  obtain b pos where s: "s = (b, pos)" by (cases s)
  from Cons.prems hi have pos: "0 \<le> pos" "pos \<le> int C + 10" by (simp_all add: s fmt_inv_def)
  have sz: "size_t pos = pos" "size_t (int C - 1) = int C - 1"
    using cap pos by (simp_all add: size_t_id)
  show ?case
  proof (cases "c = NUL")
    case True
    with Cons.prems show ?thesis by (simp add: s)
  next
    case nz: False
    show ?thesis
    proof (cases "pos < int C - 1")
      case True
      then have step: "put_if_room C c (b, pos) = (store pos c b, to_int (pos + 1))"
        by (simp add: put_if_room_def sz)
      have i: "fmt_inv C hi (store pos c b, to_int (pos + 1))"
        using put_if_room_inv [OF cap hi Cons.prems(1), of c] by (simp add: s step)
      have h: "holds C (X @ [c]) (store pos c b, to_int (pos + 1))"
        using put_if_room_holds [OF cap Cons.prems(1) hi(2) Cons.prems(2), of c] by (simp add: s step)
      from Cons.IH [OF i h] True nz show ?thesis by (simp add: s sz)
    next
      case False
      then have "holds C (X @ takeWhile (\<lambda>c. c \<noteq> NUL) (c # cs)) (b, pos)"
        using Cons.prems(2) by (intro holds_full_append) (simp_all add: s)
      with False show ?thesis by (simp add: s sz)
    qed
  qed
qed

lemma bytes_bounded_write_at:
  assumes "0 < sz" "j < length s" "int j < sz - 1"
  shows "bytes (bounded_write p sz s b) (p + int j) = s ! j"
proof -
  have "bytes (write_str p (take (nat (sz - 1)) s @ [NUL]) b) (p + int j) =
      (take (nat (sz - 1)) s @ [NUL]) ! nat (int j)"
    using assms by (intro bytes_write_str_at) simp_all
  also have "\<dots> = s ! j"
  proof -
    have "j < nat (sz - 1)" using assms by linarith
    then show ?thesis using assms by (simp add: nth_append)
  qed
  finally show ?thesis using assms by (simp add: bounded_write_def)
qed

lemma bounded_write_holds:
  assumes C: "2 \<le> C" and pos: "0 \<le> pos" "pos \<le> int C - 1"
    and h: "holds C X (b, pos)"
  shows "\<forall>i. i < length (X @ s) \<and> i < C - 1 \<longrightarrow>
     bytes (bounded_write pos (int C - pos) s b) (int i) = (X @ s) ! i"
proof (intro allI impI)
  fix i assume "i < length (X @ s) \<and> i < C - 1"
  then have i: "i < length (X @ s)" "i < C - 1" by simp_all
  from h have d: "pos = int (length X) \<or> (int C - 1 \<le> pos \<and> C - 1 \<le> length X)"
    and old: "\<forall>i. i < length X \<and> i < C - 1 \<longrightarrow> bytes b (int i) = X ! i"
    by (simp_all add: holds_def)
  show "bytes (bounded_write pos (int C - pos) s b) (int i) = (X @ s) ! i"
  proof (cases "i < length X")
    case True
    with i d pos have "int i < pos" by auto
    then have "bytes (bounded_write pos (int C - pos) s b) (int i) = bytes b (int i)"
      by (simp add: bounded_write_def bytes_write_str_below)
    with True old i show ?thesis by (simp add: nth_append)
  next
    case False
    with i d have p: "pos = int (length X)" by auto
    from False i have j: "i - length X < length s" by simp
    have "bytes (bounded_write pos (int C - pos) s b) (pos + int (i - length X)) = s ! (i - length X)"
      using i False p pos j by (intro bytes_bounded_write_at) auto
    moreover have "pos + int (i - length X) = int i" using False p by simp
    ultimately show ?thesis using False by (simp add: nth_append)
  qed
qed


lemma strftime_step_holds:
  assumes cap: "9 \<le> C" "int C + 10 < 2 ^ 31"
  shows "holds C (hms t)
     (fst (strftime_HMS 0 (size_t (int C - 0)) t b0),
      to_int (size_t (0 + snd (strftime_HMS 0 (size_t (int C - 0)) t b0))))"
proof -
  have sz: "size_t (int C - 0) = int C" using cap by (simp add: size_t_id)
  have "\<forall>i. i < length (hms t) \<and> i < C - 1 \<longrightarrow>
      bytes (write_str 0 (hms t @ [NUL]) b0) (int i) = hms t ! i"
  proof (intro allI impI)
    fix i assume "i < length (hms t) \<and> i < C - 1"
    then have i: "i < length (hms t)" by simp
    then have "bytes (write_str 0 (hms t @ [NUL]) b0) (0 + int i) = (hms t @ [NUL]) ! nat (int i)"
      by (intro bytes_write_str_at) simp_all
    with i show "bytes (write_str 0 (hms t @ [NUL]) b0) (int i) = hms t ! i"
      by (simp add: nth_append)
  qed
  then show ?thesis using cap
    by (simp add: strftime_HMS_def sz length_hms holds_def size_t_id to_int_id)
qed

lemma snprintf_step_holds:
  assumes cap: "2 \<le> C" "int C + 10 < 2 ^ 31"
    and i0: "fmt_inv C (int C - 1) (b, pos)"
    and h: "holds C X (b, pos)"
  shows "holds C (X @ dec_int (sint line))
     (fst (snprintf_d pos (size_t (int C - pos)) line b),
      to_int (pos + snd (snprintf_d pos (size_t (int C - pos)) line b)))"
proof -
  from i0 have pos: "0 \<le> pos" "pos \<le> int C - 1" by (simp_all add: fmt_inv_def)
  have sz: "size_t (int C - pos) = int C - pos" using cap pos by (intro size_t_id) simp_all
  let ?s = "dec_int (sint line)"
  have len: "int (length ?s) \<le> 11" using length_dec_int_sint [of line] by simp
  have ti: "to_int (pos + int (length ?s)) = pos + int (length ?s)"
    using cap pos len by (intro to_int_id) simp_all
  from h have d: "pos = int (length X) \<or> (int C - 1 \<le> pos \<and> C - 1 \<le> length X)"
    by (simp add: holds_def)
  have "pos + int (length ?s) = int (length (X @ ?s)) \<or>
      (int C - 1 \<le> pos + int (length ?s) \<and> C - 1 \<le> length (X @ ?s))"
    using d by auto
  moreover note bounded_write_holds [OF cap(1) pos h, of ?s]
  ultimately show ?thesis by (simp add: snprintf_d_def sz ti holds_def)
qed

lemma vsnprintf_cases_text:
  obtains (err) "vsnprintf p sz e b = (b, - 1)" "msg_text e = []"
  | (ok) m where "msg_text e = m" "int (length m) < 2 ^ 31"
      "vsnprintf p sz e b = (bounded_write p sz m b, int (length m))"
proof (cases e)
  case None
  then have "vsnprintf p sz e b = (b, - 1)" "msg_text e = []"
    by (simp_all add: vsnprintf_def msg_text_def)
  then show ?thesis by (rule err)
next
  case (Some m)
  show ?thesis
  proof (cases "2 ^ 31 \<le> int (length m)")
    case True
    with Some have "vsnprintf p sz e b = (b, - 1)" "msg_text e = []"
      by (simp_all add: vsnprintf_def msg_text_def)
    then show ?thesis by (rule err)
  next
    case False
    with Some have "vsnprintf p sz e b = (bounded_write p sz m b, int (length m))" "msg_text e = m"
      by (simp_all add: vsnprintf_def msg_text_def)
    with False show ?thesis by (intro ok [of m]) simp_all
  qed
qed

lemma fmt_message_holds:
  assumes cap: "2 \<le> C" "int C + 10 < 2 ^ 31"
    and i0: "fmt_inv C (int C + 10) s"
    and h: "holds C X s"
  shows "holds C (X @ msg_text e) (fmt_message C e s)"
proof -
  obtain b pos where s: "s = (b, pos)" by (cases s)
  from i0 have pos: "0 \<le> pos" "pos \<le> int C + 10" by (simp_all add: s fmt_inv_def)
  note eq = fmt_message_plain [OF cap pos, of e b]
  from h have d: "pos = int (length X) \<or> (int C - 1 \<le> pos \<and> C - 1 \<le> length X)"
    by (simp add: s holds_def)
  show ?thesis
  proof (cases "pos < int C")
    case True
    show ?thesis
    proof (cases rule: vsnprintf_cases_text [of pos "int C - pos" e b])
      case err
      then show ?thesis using h True unfolding s eq by simp
    next
      case (ok m)
      have le: "pos \<le> int C - 1" using True by simp
      note w = bounded_write_holds [OF cap(1) pos(1) le h [unfolded s], of m]
      show ?thesis
      proof (cases "int (length m) < int C - pos")
        case True
        then have "pos + int (length m) = int (length (X @ m)) \<or>
            (int C - 1 \<le> pos + int (length m) \<and> C - 1 \<le> length (X @ m))"
          using d by auto
        with w True \<open>pos < int C\<close> show ?thesis unfolding s eq ok(3) ok(1)
          by (simp add: holds_def)
      next
        case False
        then have "C - 1 \<le> length (X @ m)" using d pos by auto
        with w False \<open>pos < int C\<close> show ?thesis unfolding s eq ok(3) ok(1)
          by (simp add: holds_def)
      qed
    qed
  next
    case False
    then have "holds C (X @ msg_text e) (b, pos)" using h by (intro holds_full_append) (simp_all add: s)
    with False show ?thesis unfolding s eq by simp
  qed
qed

lemma length_semihosting_write: "length (semihosting_write f n) = nat n"
  by (simp add: semihosting_write_def)

lemma nth_semihosting_write: "int i < n \<Longrightarrow> semihosting_write f n ! i = f (int i)"
  by (simp add: semihosting_write_def)

lemma fmt_newline_holds:
  assumes cap: "2 \<le> C" "int C + 10 < 2 ^ 31"
    and i0: "fmt_inv C (int C + 10) s"
    and h: "holds C X s"
  shows "semihosting_write (bytes (fst (fmt_newline C s))) (snd (fmt_newline C s)) =
     take (C - 2) X @ [CHR 0x0A]"
proof -
  obtain b pos where s: "s = (b, pos)" by (cases s)
  from i0 have pos: "0 \<le> pos" "pos \<le> int C + 10" by (simp_all add: s fmt_inv_def)
  note eq = fmt_newline_plain [OF cap pos, of b]
  from h have d: "pos = int (length X) \<or> (int C - 1 \<le> pos \<and> C - 1 \<le> length X)"
    and old: "\<forall>i. i < length X \<and> i < C - 1 \<longrightarrow> bytes b (int i) = X ! i"
    by (simp_all add: s holds_def)
  define p where "p = (if pos \<ge> int C - 1 then int C - 2 else pos)"
  have p: "p = int (min (length X) (C - 2))" using d cap pos unfolding p_def by auto
  have r: "fmt_newline C s = (store p (CHR 0x0A) b, p + 1)" unfolding s eq p_def by simp
  show ?thesis
  proof (rule nth_equalityI)
    show "length (semihosting_write (bytes (fst (fmt_newline C s))) (snd (fmt_newline C s))) =
        length (take (C - 2) X @ [CHR 0x0A])"
      by (simp add: r length_semihosting_write p)
  next
    fix i assume "i < length (semihosting_write (bytes (fst (fmt_newline C s))) (snd (fmt_newline C s)))"
    then have "i < nat (int (min (length X) (C - 2)) + 1)"
      by (simp add: r length_semihosting_write p)
    then have i: "i \<le> min (length X) (C - 2)" by linarith
    then have "semihosting_write (bytes (store p (CHR 0x0A) b)) (p + 1) ! i =
        bytes (store p (CHR 0x0A) b) (int i)"
      by (intro nth_semihosting_write) (simp add: p)
    also have "\<dots> = (take (C - 2) X @ [CHR 0x0A]) ! i"
    proof (cases "i = min (length X) (C - 2)")
      case True
      then show ?thesis by (simp add: bytes_store p nth_append)
    next
      case False
      with i have lt: "i < length X" "i < C - 2" by linarith+
      then have "bytes b (int i) = X ! i" using old by simp
      with lt False show ?thesis by (simp add: bytes_store p nth_append)
    qed
    finally show "semihosting_write (bytes (fst (fmt_newline C s))) (snd (fmt_newline C s)) ! i =
        (take (C - 2) X @ [CHR 0x0A]) ! i"
      by (simp add: r)
  qed
qed


lemma fmt_header_holds:
  assumes cap: "9 \<le> C" "int C + 10 < 2 ^ 31"
  shows "holds C (hms t @ '' '' @ c_str lvl @ '' '' @ c_str file @ '':'' @ dec_int (sint line) @ '': '')
     (fmt_header C t lvl file line \<lparr>bytes = buf, stores = []\<rparr>)"
proof -
  have cap2: "2 \<le> C" using cap by simp
  note cap' = cap2 cap(2)
  note ti = put_if_room_inv [OF cap', of "int C - 1"] copy_str_inv [OF cap', of "int C - 1"]
  note li = put_if_room_inv [OF cap', of "int C + 10"]
  define s1 where "s1 = (fst (strftime_HMS 0 (size_t (int C - 0)) t \<lparr>bytes = buf, stores = []\<rparr>),
      to_int (size_t (0 + snd (strftime_HMS 0 (size_t (int C - 0)) t \<lparr>bytes = buf, stores = []\<rparr>))))"
  define s2 where "s2 = put_if_room C (CHR '' '') s1"
  define s3 where "s3 = copy_str C lvl s2"
  define s4 where "s4 = put_if_room C (CHR '' '') s3"
  define s5 where "s5 = copy_str C file s4"
  define s6 where "s6 = put_if_room C (CHR '':'') s5"
  define s7 where "s7 = (fst (snprintf_d (snd s6) (size_t (int C - snd s6)) line (fst s6)),
      to_int (snd s6 + snd (snprintf_d (snd s6) (size_t (int C - snd s6)) line (fst s6))))"
  define s8 where "s8 = put_if_room C (CHR '':'') s7"
  define s9 where "s9 = put_if_room C (CHR '' '') s8"
  have i1: "fmt_inv C (int C - 1) s1" unfolding s1_def by (rule strftime_step_inv [OF cap'])
  then have i2: "fmt_inv C (int C - 1) s2" unfolding s2_def by (intro ti) simp_all
  then have i3: "fmt_inv C (int C - 1) s3" unfolding s3_def by (intro ti) simp_all
  then have i4: "fmt_inv C (int C - 1) s4" unfolding s4_def by (intro ti) simp_all
  then have i5: "fmt_inv C (int C - 1) s5" unfolding s5_def by (intro ti) simp_all
  then have i6: "fmt_inv C (int C - 1) s6" unfolding s6_def by (intro ti) simp_all
  then have i6': "fmt_inv C (int C - 1) (fst s6, snd s6)" by simp
  then have i7: "fmt_inv C (int C + 10) s7" unfolding s7_def by (intro snprintf_step_inv [OF cap']) simp_all
  then have i8: "fmt_inv C (int C + 10) s8" unfolding s8_def by (intro li) simp_all
  have h1: "holds C (hms t) s1" unfolding s1_def by (rule strftime_step_holds [OF cap])
  have h2: "holds C (hms t @ '' '') s2"
    unfolding s2_def using put_if_room_holds [OF cap' i1 _ h1, of "CHR '' ''"] by simp
  have h3: "holds C ((hms t @ '' '') @ c_str lvl) s3"
    unfolding s3_def using copy_str_holds [OF cap' _ _ i2 h2, of "lvl"] by (simp add: c_str_def)
  have h4: "holds C (((hms t @ '' '') @ c_str lvl) @ '' '') s4"
    unfolding s4_def using put_if_room_holds [OF cap' i3 _ h3, of "CHR '' ''"] by simp
  have h5: "holds C ((((hms t @ '' '') @ c_str lvl) @ '' '') @ c_str file) s5"
    unfolding s5_def using copy_str_holds [OF cap' _ _ i4 h4, of "file"] by (simp add: c_str_def)
  have h6: "holds C (((((hms t @ '' '') @ c_str lvl) @ '' '') @ c_str file) @ '':'') s6"
    unfolding s6_def using put_if_room_holds [OF cap' i5 _ h5, of "CHR '':''"] by simp
  then have h6': "holds C (((((hms t @ '' '') @ c_str lvl) @ '' '') @ c_str file) @ '':'') (fst s6, snd s6)"
    by simp
  have h7: "holds C ((((((hms t @ '' '') @ c_str lvl) @ '' '') @ c_str file) @ '':'') @ dec_int (sint line)) s7"
    unfolding s7_def by (rule snprintf_step_holds [OF cap' i6' h6'])
  have h8: "holds C (((((((hms t @ '' '') @ c_str lvl) @ '' '') @ c_str file) @ '':'') @ dec_int (sint line)) @ '':'') s8"
    unfolding s8_def using put_if_room_holds [OF cap' i7 _ h7, of "CHR '':''"] by simp
  have h9: "holds C ((((((((hms t @ '' '') @ c_str lvl) @ '' '') @ c_str file) @ '':'') @ dec_int (sint line)) @ '':'') @ '' '') s9"
    unfolding s9_def using put_if_room_holds [OF cap' i8 _ h8, of "CHR '' ''"] by simp
  have "fmt_header C t lvl file line \<lparr>bytes = buf, stores = []\<rparr> = s9"
    by (simp add: fmt_header_def s9_def s8_def s7_def s6_def s5_def s4_def s3_def s2_def s1_def
        Let_def case_prod_beta)
  with h9 show ?thesis by simp
qed

lemma stdout_format_line:
  assumes cap: "9 \<le> C" "int C + 10 < 2 ^ 31"
    and t: "ev_time ev = Some t" and lvl: "log_level_string (ev_level ev) = Some lvl"
  shows "\<exists>w pos. stdout_format C vfmt buf ev = Some (w, pos) \<and>
     semihosting_write (bytes w) pos =
       take (C - 2) (line_text t lvl (ev_file ev) (ev_line ev) (vfmt (ev_fmt ev) (ev_ap ev))) @ [CHR 0x0A]"
proof -
  have cap2: "2 \<le> C" using cap by simp
  define h where "h = fmt_header C t lvl (ev_file ev) (ev_line ev) \<lparr>bytes = buf, stores = []\<rparr>"
  define e where "e = vfmt (ev_fmt ev) (ev_ap ev)"
  define r where "r = fmt_newline C (fmt_message C e h)"
  have ih: "fmt_inv C (int C + 10) h" unfolding h_def by (rule fmt_header_inv [OF cap2 cap(2)])
  then have im: "fmt_inv C (int C + 10) (fmt_message C e h)"
    by (intro fmt_message_inv [OF cap2 cap(2)]) simp_all
  have "holds C (hms t @ '' '' @ c_str lvl @ '' '' @ c_str (ev_file ev) @ '':'' @
      dec_int (sint (ev_line ev)) @ '': '') h"
    unfolding h_def by (rule fmt_header_holds [OF cap])
  from fmt_message_holds [OF cap2 cap(2) ih this, of e]
  have "holds C (line_text t lvl (ev_file ev) (ev_line ev) e) (fmt_message C e h)"
    by (simp add: line_text_def)
  from fmt_newline_holds [OF cap2 cap(2) im this]
  have "semihosting_write (bytes (fst r)) (snd r) =
      take (C - 2) (line_text t lvl (ev_file ev) (ev_line ev) e) @ [CHR 0x0A]"
    by (simp add: r_def)
  moreover have "stdout_format C vfmt buf ev = Some (fst r, snd r)"
    using t lvl by (simp add: stdout_format_def r_def h_def e_def)
  ultimately show ?thesis unfolding e_def by blast
qed

lemma stdout_format_bounds:
  assumes cap: "2 \<le> C" "int C + 10 < 2 ^ 31"
    and t: "ev_time ev = Some t" and lvl: "log_level_string (ev_level ev) = Some lvl"
  shows "\<exists>w pos. stdout_format C vfmt buf ev = Some (w, pos) \<and> in_bounds C w \<and>
     0 < pos \<and> pos \<le> int C - 1 \<and> bytes w (pos - 1) = CHR 0x0A \<and>
     (\<forall>m. vfmt (ev_fmt ev) (ev_ap ev) = Some m \<and> C \<le> length m \<and> int (length m) < 2 ^ 31
        \<longrightarrow> pos = int C - 1)"
proof -
  define h where "h = fmt_header C t lvl (ev_file ev) (ev_line ev) \<lparr>bytes = buf, stores = []\<rparr>"
  define e where "e = vfmt (ev_fmt ev) (ev_ap ev)"
  define r where "r = fmt_newline C (fmt_message C e h)"
  have ih: "fmt_inv C (int C + 10) h" unfolding h_def by (rule fmt_header_inv [OF cap])
  then have im: "fmt_inv C (int C + 10) (fmt_message C e h)"
    by (rule fmt_message_inv [OF cap])
  note n = fmt_newline_inv [OF cap im, folded r_def]
  have "fmt_inv C (int C - 1) r" by (rule n)
  then have a: "in_bounds C (fst r)" "snd r \<le> int C - 1" by (simp_all add: fmt_inv_def case_prod_beta)
  have b: "0 < snd r" by (rule n)
  have c: "bytes (fst r) (snd r - 1) = CHR 0x0A" by (rule n)
  have d: "\<forall>m. e = Some m \<and> C \<le> length m \<and> int (length m) < 2 ^ 31 \<longrightarrow> snd r = int C - 1"
  proof (intro allI impI)
    fix m assume m: "e = Some m \<and> C \<le> length m \<and> int (length m) < 2 ^ 31"
    obtain b pos where hp: "h = (b, pos)" by (cases h)
    with ih have "0 \<le> pos" "pos \<le> int C + 10" by (simp_all add: fmt_inv_def)
    from fmt_message_long [OF cap this, of m b] m
    have "int C - 1 \<le> snd (fmt_message C e h)" by (simp add: hp)
    then show "snd r = int C - 1" using cap by (intro n) simp_all
  qed
  have "stdout_format C vfmt buf ev = Some (fst r, snd r)"
    using t lvl by (simp add: stdout_format_def r_def h_def e_def)
  with a b c d show ?thesis unfolding e_def by blast
qed

section \<open>Facts about the dispatch loop\<close>

lemma log_level_string_Some: "0 \<le> l \<Longrightarrow> l < 6 \<Longrightarrow> \<exists>lvl. log_level_string l = Some lvl"
  by (simp add: log_level_string_def level_strings_def)

lemma stdout_callback_defined:
  assumes cap: "2 \<le> C" "int C + 10 < 2 ^ 31"
    and t: "ev_time ev = Some t" and l: "0 \<le> ev_level ev" "ev_level ev < 6"
  shows "\<exists>buf' out. stdout_callback C vfmt buf ev = Some (buf', out)"
proof -
  from l obtain lvl where "log_level_string (ev_level ev) = Some lvl"
    using log_level_string_Some by blast
  from stdout_format_bounds [OF cap t this, of vfmt buf]
  obtain w pos where "stdout_format C vfmt buf ev = Some (w, pos)" "in_bounds C w" by blast
  then show ?thesis by (simp add: stdout_callback_def in_bounds_def)
qed

lemma init_event_fst:
  "fst (init_event now ev ud) =
     ev\<lparr>ev_time := Some (case ev_time ev of None \<Rightarrow> now | Some t \<Rightarrow> t), ev_udata := ud\<rparr>"
  by (cases "ev_time ev") (simp_all add: init_event_def)

lemma init_event_snd:
  "snd (init_event now ev ud) = (case ev_time ev of None \<Rightarrow> [TimeCall] | Some t \<Rightarrow> [])"
  by (cases "ev_time ev") (simp_all add: init_event_def)

lemma observer_calls_append: "observer_calls (xs @ ys) = observer_calls xs @ observer_calls ys"
  by (induction xs rule: observer_calls.induct) simp_all

lemma observer_calls_init_event: "observer_calls (snd (init_event now ev ud)) = []"
  by (cases "ev_time ev") (simp_all add: init_event_snd)

lemma dispatch_from_calls:
  "observer_calls (dispatch_from now L level i ev) =
     map (\<lambda>cb. (cb_fn cb,
            ev\<lparr>ev_time := Some (case ev_time ev of None \<Rightarrow> now | Some t \<Rightarrow> t),
               ev_udata := cb_udata cb\<rparr>))
       (filter (\<lambda>cb. cb_level cb \<le> level)
          (takeWhile (\<lambda>cb. cb_fn cb \<noteq> NULL) (map (L_callbacks L) [i ..< MAX_CALLBACKS])))"
proof (induction now L level i ev rule: dispatch_from.induct)
  case (1 now L level i ev)
  show ?case
  proof (cases "i < MAX_CALLBACKS")
    case False
    then show ?thesis by (subst dispatch_from.simps) simp
  next
    case lt: True
    then have upt: "[i ..< MAX_CALLBACKS] = i # [i + 1 ..< MAX_CALLBACKS]"
      by (simp add: upt_conv_Cons)
    show ?thesis
    proof (cases "cb_fn (L_callbacks L i) \<noteq> NULL")
      case False
      then show ?thesis using lt by (subst dispatch_from.simps) (simp add: upt)
    next
      case occ: True
      show ?thesis
      proof (cases "level \<ge> cb_level (L_callbacks L i)")
        case False
        with "1.IH"(2) [OF lt occ False] lt occ show ?thesis
          by (subst dispatch_from.simps) (simp add: upt)
      next
        case True
        obtain ev' t where ie: "init_event now ev (cb_udata (L_callbacks L i)) = (ev', t)"
          by (cases "init_event now ev (cb_udata (L_callbacks L i))")
        then have ev': "ev' = ev\<lparr>ev_time := Some (case ev_time ev of None \<Rightarrow> now | Some t \<Rightarrow> t),
            ev_udata := cb_udata (L_callbacks L i)\<rparr>"
          and t: "observer_calls t = []"
          using init_event_fst [of now ev "cb_udata (L_callbacks L i)"]
            observer_calls_init_event [of now ev "cb_udata (L_callbacks L i)"] by simp_all
        from "1.IH"(1) [OF lt occ True ie [symmetric]]
        show ?thesis using lt occ True
          by (subst dispatch_from.simps) (simp add: upt ie observer_calls_append t ev')
      qed
    qed
  qed
qed

lemma dispatch_from_events:
  "e \<in> set (dispatch_from now L level i ev) \<Longrightarrow> \<not> is_SysWrite e \<and> \<not> is_LockCall e"
proof (induction now L level i ev rule: dispatch_from.induct)
  case (1 now L level i ev)
  show ?case
  proof (cases "i < MAX_CALLBACKS \<and> cb_fn (L_callbacks L i) \<noteq> NULL")
    case False
    with "1.prems" show ?thesis by (subst (asm) dispatch_from.simps) (auto split: if_splits)
  next
    case a: True
    show ?thesis
    proof (cases "level \<ge> cb_level (L_callbacks L i)")
      case False
      with a "1.prems" "1.IH"(2) show ?thesis
        by (subst (asm) dispatch_from.simps) (auto split: if_splits)
    next
      case True
      obtain ev' t where ie: "init_event now ev (cb_udata (L_callbacks L i)) = (ev', t)"
        by (cases "init_event now ev (cb_udata (L_callbacks L i))")
      then have t: "t = [TimeCall] \<or> t = []"
        using init_event_snd [of now ev "cb_udata (L_callbacks L i)"] by (auto split: option.splits)
      from a True ie "1.prems" have "e = Read (Slot i) \<or> e \<in> set t \<or>
          e = ObserverCall (cb_fn (L_callbacks L i)) ev' \<or>
          e \<in> set (dispatch_from now L level (i + 1) ev')"
        by (subst (asm) dispatch_from.simps) auto
      with t "1.IH"(1) [OF _ _ True ie [symmetric]] a show ?thesis by auto
    qed
  qed
qed

section \<open>Facts about the registry\<close>

lemma add_callback_from_free:
  "i \<le> k \<Longrightarrow> k < MAX_CALLBACKS \<Longrightarrow> cb_fn (L_callbacks L k) = NULL \<Longrightarrow>
   (\<And>j. i \<le> j \<Longrightarrow> j < k \<Longrightarrow> cb_fn (L_callbacks L j) \<noteq> NULL) \<Longrightarrow>
   add_callback_from i cb L = (L\<lparr>L_callbacks := (L_callbacks L)(k := cb)\<rparr>, 0)"
proof (induction i cb L rule: add_callback_from.induct)
  case (1 i cb L)
  show ?case
  proof (cases "i = k")
    case True
    with "1.prems" show ?thesis
      by (subst add_callback_from.simps) simp
  next
    case False
    with "1.prems" have lt: "i < k" and occ: "cb_fn (L_callbacks L i) \<noteq> NULL"
      by auto
    from lt "1.prems" have "i < MAX_CALLBACKS" by simp
    moreover have "add_callback_from (i + 1) cb L = (L\<lparr>L_callbacks := (L_callbacks L)(k := cb)\<rparr>, 0)"
    proof (rule "1.IH" [OF \<open>i < MAX_CALLBACKS\<close> occ])
      show "i + 1 \<le> k" using lt by simp
      show "k < MAX_CALLBACKS" "cb_fn (L_callbacks L k) = NULL" by fact+
      fix j assume "i + 1 \<le> j" "j < k"
      then show "cb_fn (L_callbacks L j) \<noteq> NULL" using "1.prems"(4) [of j] by simp
    qed
    ultimately show ?thesis
      using occ by (subst add_callback_from.simps) simp
  qed
qed

lemma add_callback_from_full:
  "(\<And>j. i \<le> j \<Longrightarrow> j < MAX_CALLBACKS \<Longrightarrow> cb_fn (L_callbacks L j) \<noteq> NULL) \<Longrightarrow>
   add_callback_from i cb L = (L, - 1)"
proof (induction i cb L rule: add_callback_from.induct)
  case (1 i cb L)
  show ?case
  proof (cases "i < MAX_CALLBACKS")
    case True
    with "1.prems" have occ: "cb_fn (L_callbacks L i) \<noteq> NULL" by simp
    have "add_callback_from (i + 1) cb L = (L, - 1)"
      using "1.IH" [OF True occ] "1.prems" by simp
    then show ?thesis using True occ by (subst add_callback_from.simps) simp
  next
    case False
    then show ?thesis by (subst add_callback_from.simps) simp
  qed
qed

lemma first_free_slot:
  "\<exists>i<(n::nat). cb_fn (f i) = NULL \<Longrightarrow>
   \<exists>k<n. cb_fn (f k) = NULL \<and> (\<forall>j<k. cb_fn (f j) \<noteq> NULL)"
proof -
  assume "\<exists>i<n. cb_fn (f i) = NULL"
  then obtain i where i: "i < n \<and> cb_fn (f i) = NULL" by blast
  define k where "k = (LEAST i. i < n \<and> cb_fn (f i) = NULL)"
  have "k < n \<and> cb_fn (f k) = NULL" unfolding k_def by (rule LeastI [of _ i]) (rule i)
  moreover have "\<forall>j<k. cb_fn (f j) \<noteq> NULL"
  proof (intro allI impI)
    fix j assume "j < k"
    then have "\<not> (j < n \<and> cb_fn (f j) = NULL)" unfolding k_def by (rule not_less_Least)
    moreover from \<open>j < k\<close> \<open>k < n \<and> _\<close> have "j < n" by simp
    ultimately show "cb_fn (f j) \<noteq> NULL" by simp
  qed
  ultimately show ?thesis by blast
qed

lemma registered_full:
  "(\<forall>i<MAX_CALLBACKS. cb_fn (L_callbacks L i) \<noteq> NULL) \<Longrightarrow>
   registered L = map (L_callbacks L) [0 ..< MAX_CALLBACKS]"
  unfolding registered_def by (simp add: takeWhile_eq_all_conv)

section \<open>The trace of \<^verbatim>\<open>log_log\<close>\<close>

lemma log_log_fires_line:
  assumes cap: "2 \<le> C" "int C + 10 < 2 ^ 31" and l: "0 \<le> level" "level < 6"
    and f: "\<not> L_quiet L" "L_level L \<le> level"
  shows "\<exists>out buf'.
     stdout_callback C vfmt (stdout_buf L) ((new_event level file line fmt ap)\<lparr>ev_time := Some now\<rparr>) =
       Some (buf', out) \<and>
     log_log C vfmt now L level file line fmt ap =
     Some (lock L @ [Read Quiet, Read Threshold, TimeCall, SysWrite out] @
             dispatch_from now L level 0 ((new_event level file line fmt ap)\<lparr>ev_time := Some now\<rparr>) @
             unlock L,
           L\<lparr>stdout_buf := buf'\<rparr>)"
proof -
  let ?ev = "(new_event level file line fmt ap)\<lparr>ev_time := Some now\<rparr>"
  have ie: "init_event now (new_event level file line fmt ap) NULL = (?ev, [TimeCall])"
    by (simp add: init_event_def new_event_def)
  have "ev_time ?ev = Some now" "0 \<le> ev_level ?ev" "ev_level ?ev < 6"
    using l by (simp_all add: new_event_def)
  from stdout_callback_defined [OF cap this, of vfmt "stdout_buf L"]
  obtain buf' out where cb: "stdout_callback C vfmt (stdout_buf L) ?ev = Some (buf', out)" by blast
  then have "log_log C vfmt now L level file line fmt ap =
     Some (lock L @ [Read Quiet, Read Threshold, TimeCall, SysWrite out] @
             dispatch_from now L level 0 ?ev @ unlock L,
           L\<lparr>stdout_buf := buf'\<rparr>)"
    using f by (simp add: log_log_def ie)
  with cb show ?thesis by blast
qed

lemma log_log_fires:
  assumes "2 \<le> C" "int C + 10 < 2 ^ 31" "0 \<le> level" "level < 6"
    and "\<not> L_quiet L" "L_level L \<le> level"
  shows "\<exists>out buf'. log_log C vfmt now L level file line fmt ap =
     Some (lock L @ [Read Quiet, Read Threshold, TimeCall, SysWrite out] @
             dispatch_from now L level 0 ((new_event level file line fmt ap)\<lparr>ev_time := Some now\<rparr>) @
             unlock L,
           L\<lparr>stdout_buf := buf'\<rparr>)"
  using log_log_fires_line [OF assms] by blast

lemma log_log_silent:
  assumes "L_quiet L \<or> level < L_level L"
  shows "log_log C vfmt now L level file line fmt ap =
     Some (lock L @ Read Quiet # (if L_quiet L then [] else [Read Threshold]) @
             dispatch_from now L level 0 (new_event level file line fmt ap) @ unlock L,
           L)"
  using assms by (auto simp add: log_log_def)

lemma lock_events: "e \<in> set (lock L) \<Longrightarrow> \<not> is_SysWrite e \<and> \<not> is_ObserverCall e"
  by (auto simp add: lock_def split: if_splits)

lemma unlock_events: "e \<in> set (unlock L) \<Longrightarrow> \<not> is_SysWrite e \<and> \<not> is_ObserverCall e"
  by (auto simp add: unlock_def split: if_splits)

lemma observer_calls_lock: "observer_calls (lock L) = []" "observer_calls (unlock L) = []"
  by (simp_all add: lock_def unlock_def)

lemma registered_upd: "registered (L\<lparr>L_quiet := q, L_level := th\<rparr>) = registered L"
  by (simp add: registered_def)

lemma log_log_observer_calls:
  assumes "2 \<le> C" "int C + 10 < 2 ^ 31" "0 \<le> level" "level < 6"
  shows "\<exists>tr L'. log_log C vfmt now L level file line fmt ap = Some (tr, L') \<and>
     observer_calls tr =
       map (\<lambda>cb. (cb_fn cb,
              (new_event level file line fmt ap)\<lparr>ev_time := Some now, ev_udata := cb_udata cb\<rparr>))
         (filter (\<lambda>cb. cb_level cb \<le> level) (registered L))"
proof (cases "\<not> L_quiet L \<and> L_level L \<le> level")
  case True
  with log_log_fires [OF assms, of L vfmt now "file" line fmt ap] show ?thesis
    by (auto simp add: observer_calls_append observer_calls_lock dispatch_from_calls registered_def)
next
  case False
  then have q: "L_quiet L \<or> level < L_level L" by auto
  have "ev_time (new_event level file line fmt ap) = None" by (simp add: new_event_def)
  then show ?thesis unfolding log_log_silent [OF q]
    by (simp add: observer_calls_append observer_calls_lock dispatch_from_calls registered_def)
qed

lemma log_log_writes_calls:
  assumes "2 \<le> C" "int C + 10 < 2 ^ 31" "0 \<le> level" "level < 6"
  shows "\<exists>tr L'. log_log C vfmt now L level file line fmt ap = Some (tr, L') \<and>
     ((\<exists>out. SysWrite out \<in> set tr) \<longleftrightarrow> (\<not> L_quiet L \<and> L_level L \<le> level)) \<and>
     observer_calls tr =
       map (\<lambda>cb. (cb_fn cb,
              (new_event level file line fmt ap)\<lparr>ev_time := Some now, ev_udata := cb_udata cb\<rparr>))
         (filter (\<lambda>cb. cb_level cb \<le> level) (registered L))"
proof (cases "\<not> L_quiet L \<and> L_level L \<le> level")
  case True
  then have f: "\<not> L_quiet L" "L_level L \<le> level" by simp_all
  let ?ev = "(new_event level file line fmt ap)\<lparr>ev_time := Some now\<rparr>"
  from log_log_fires [OF assms f, of vfmt now "file" line fmt ap]
  obtain out0 buf' where lg: "log_log C vfmt now L level file line fmt ap =
      Some (lock L @ [Read Quiet, Read Threshold, TimeCall, SysWrite out0] @
              dispatch_from now L level 0 ?ev @ unlock L,
            L\<lparr>stdout_buf := buf'\<rparr>)"
    by blast
  let ?tr = "lock L @ [Read Quiet, Read Threshold, TimeCall, SysWrite out0] @
              dispatch_from now L level 0 ?ev @ unlock L"
  have w: "\<exists>out. SysWrite out \<in> set ?tr" by (rule exI [of _ out0]) simp
  have c: "observer_calls ?tr =
       map (\<lambda>cb. (cb_fn cb,
              (new_event level file line fmt ap)\<lparr>ev_time := Some now, ev_udata := cb_udata cb\<rparr>))
         (filter (\<lambda>cb. cb_level cb \<le> level) (registered L))"
    by (simp add: observer_calls_append observer_calls_lock dispatch_from_calls registered_def)
  from True w c show ?thesis unfolding lg by blast
next
  case False
  then have q: "L_quiet L \<or> level < L_level L" by auto
  let ?tr = "lock L @ Read Quiet # (if L_quiet L then [] else [Read Threshold]) @
             dispatch_from now L level 0 (new_event level file line fmt ap) @ unlock L"
  have "\<not> is_SysWrite e" if "e \<in> set ?tr" for e
    using that lock_events [of e L] unlock_events [of e L]
      dispatch_from_events [of e now L level 0 "new_event level file line fmt ap"]
    by (auto split: if_splits)
  then have w: "\<not> (\<exists>out. SysWrite out \<in> set ?tr)"
    using is_SysWrite.simps(1) by blast
  have "ev_time (new_event level file line fmt ap) = None" by (simp add: new_event_def)
  then have c: "observer_calls ?tr =
       map (\<lambda>cb. (cb_fn cb,
              (new_event level file line fmt ap)\<lparr>ev_time := Some now, ev_udata := cb_udata cb\<rparr>))
         (filter (\<lambda>cb. cb_level cb \<le> level) (registered L))"
    by (simp add: observer_calls_append observer_calls_lock dispatch_from_calls registered_def)
  from False w c show ?thesis unfolding log_log_silent [OF q] by blast
qed

lemma log_set_quiet_fields:
  "L_quiet (log_set_quiet enable L) = enable"
  "L_level (log_set_quiet enable L) = L_level L"
  "registered (log_set_quiet enable L) = registered L"
  by (simp_all add: log_set_quiet_def registered_def)


section \<open>The registry along a sequence of calls\<close>

lemma filled_registered:
  assumes "filled n L"
  shows "registered L = map (L_callbacks L) [0 ..< n]"
proof -
  from assms have n: "n \<le> MAX_CALLBACKS" and occ: "\<forall>i<n. cb_fn (L_callbacks L i) \<noteq> NULL"
    and free: "\<forall>i. n \<le> i \<and> i < MAX_CALLBACKS \<longrightarrow> cb_fn (L_callbacks L i) = NULL"
    by (simp_all add: filled_def)
  from n obtain k where k: "MAX_CALLBACKS = n + k" using le_Suc_ex by blast
  have split: "[0 ..< MAX_CALLBACKS] = [0 ..< n] @ [n ..< MAX_CALLBACKS]"
    unfolding k by (rule upt_add_eq_append) simp
  have rest: "takeWhile (\<lambda>cb. cb_fn cb \<noteq> NULL) (map (L_callbacks L) [n ..< MAX_CALLBACKS]) = []"
  proof (cases "n < MAX_CALLBACKS")
    case True
    with free show ?thesis by (simp add: upt_conv_Cons)
  next
    case False
    then show ?thesis by simp
  qed
  have "takeWhile (\<lambda>cb. cb_fn cb \<noteq> NULL) (map (L_callbacks L) [0 ..< n] @ map (L_callbacks L) [n ..< MAX_CALLBACKS])
      = map (L_callbacks L) [0 ..< n] @ takeWhile (\<lambda>cb. cb_fn cb \<noteq> NULL) (map (L_callbacks L) [n ..< MAX_CALLBACKS])"
    using occ by (intro takeWhile_append2) auto
  then show ?thesis unfolding registered_def split by (simp add: rest)
qed

lemma filled_add:
  assumes "filled n L"
  shows "n < MAX_CALLBACKS \<Longrightarrow> log_add_callback fn udata level L =
      (L\<lparr>L_callbacks := (L_callbacks L)(n := \<lparr>cb_fn = fn, cb_udata = udata, cb_level = level\<rparr>)\<rparr>, 0)"
    and "n = MAX_CALLBACKS \<Longrightarrow> log_add_callback fn udata level L = (L, - 1)"
proof -
  from assms have occ: "\<forall>i<n. cb_fn (L_callbacks L i) \<noteq> NULL"
    and free: "\<forall>i. n \<le> i \<and> i < MAX_CALLBACKS \<longrightarrow> cb_fn (L_callbacks L i) = NULL"
    by (simp_all add: filled_def)
  show "n < MAX_CALLBACKS \<Longrightarrow> log_add_callback fn udata level L =
      (L\<lparr>L_callbacks := (L_callbacks L)(n := \<lparr>cb_fn = fn, cb_udata = udata, cb_level = level\<rparr>)\<rparr>, 0)"
    unfolding log_add_callback_def using occ free by (intro add_callback_from_free) simp_all
  show "n = MAX_CALLBACKS \<Longrightarrow> log_add_callback fn udata level L = (L, - 1)"
    unfolding log_add_callback_def using occ by (intro add_callback_from_full) simp_all
qed

lemma filled_add_step:
  assumes f: "filled n L"
  shows "\<exists>n'. filled n' (fst (log_add_callback fn udata level L)) \<and>
     map (L_callbacks (fst (log_add_callback fn udata level L))) [0 ..< n'] =
       take MAX_CALLBACKS (map (L_callbacks L) [0 ..< n] @
         (if fn \<noteq> NULL then [\<lparr>cb_fn = fn, cb_udata = udata, cb_level = level\<rparr>] else []))"
proof (cases "n < MAX_CALLBACKS")
  case False
  with f have n: "n = MAX_CALLBACKS" by (simp add: filled_def)
  with f show ?thesis by (intro exI [of _ n]) (simp add: filled_add(2) [OF f n])
next
  case True
  let ?cb = "\<lparr>cb_fn = fn, cb_udata = udata, cb_level = level\<rparr>"
  let ?L = "L\<lparr>L_callbacks := (L_callbacks L)(n := ?cb)\<rparr>"
  have eq: "fst (log_add_callback fn udata level L) = ?L"
    by (simp add: filled_add(1) [OF f True])
  have n: "n \<le> MAX_CALLBACKS" using True by simp
  show ?thesis
  proof (cases "fn = NULL")
    case null: True
    from f have "filled n ?L" using null by (auto simp add: filled_def)
    moreover have "map (L_callbacks ?L) [0 ..< n] = map (L_callbacks L) [0 ..< n]" by simp
    ultimately show ?thesis unfolding eq using null n by (intro exI [of _ n]) simp
  next
    case nn: False
    from f True have "filled (Suc n) ?L" using nn by (auto simp add: filled_def less_Suc_eq)
    moreover have "map (L_callbacks ?L) [0 ..< Suc n] = map (L_callbacks L) [0 ..< n] @ [?cb]" by simp
    ultimately show ?thesis unfolding eq using nn True by (intro exI [of _ "Suc n"]) simp
  qed
qed

lemma log_log_callbacks:
  "log_log C vfmt now L level file line fmt ap = Some (tr, L') \<Longrightarrow> L_callbacks L' = L_callbacks L"
  by (auto simp add: log_log_def Let_def split: if_splits option.splits prod.splits)

lemma exec_callbacks:
  assumes "exec C vfmt L c = Some L'" "\<And>fn udata level. c \<noteq> AddCallback fn udata level"
  shows "L_callbacks L' = L_callbacks L"
proof (cases c)
  case (Log level f line fmt ap now)
  with assms(1) obtain tr where "log_log C vfmt now L level f line fmt ap = Some (tr, L')" by auto
  then show ?thesis by (rule log_log_callbacks)
qed (use assms in \<open>auto simp add: log_set_lock_def log_set_level_def log_set_quiet_def\<close>)

lemma filled_cong: "L_callbacks L' = L_callbacks L \<Longrightarrow> filled n L' = filled n L"
  by (simp add: filled_def)

lemma run_filled:
  "filled n L0 \<Longrightarrow> run C vfmt L0 calls = Some L \<Longrightarrow>
   \<exists>n'. filled n' L \<and>
     map (L_callbacks L) [0 ..< n'] = take MAX_CALLBACKS (map (L_callbacks L0) [0 ..< n] @ additions calls)"
proof (induction calls arbitrary: n L0)
  case Nil
  then show ?case by (intro exI [of _ n]) (simp add: filled_def)
next
  case (Cons c cs)
  from Cons.prems(2) obtain L1 where ex: "exec C vfmt L0 c = Some L1" and r: "run C vfmt L1 cs = Some L"
    by (auto split: option.splits)
  have "\<exists>n1. filled n1 L1 \<and> map (L_callbacks L1) [0 ..< n1] =
      take MAX_CALLBACKS (map (L_callbacks L0) [0 ..< n] @ additions [c])"
  proof (cases "\<exists>fn udata level. c = AddCallback fn udata level")
    case True
    then obtain fn udata level where c: "c = AddCallback fn udata level" by blast
    with ex have L1: "L1 = fst (log_add_callback fn udata level L0)" by simp
    have "additions [c] = (if fn \<noteq> NULL then [\<lparr>cb_fn = fn, cb_udata = udata, cb_level = level\<rparr>] else [])"
      by (simp add: c)
    with filled_add_step [OF Cons.prems(1), of fn udata level] show ?thesis
      unfolding L1 by presburger
  next
    case False
    then have nc: "\<And>fn udata level. c \<noteq> AddCallback fn udata level" by blast
    from exec_callbacks [OF ex nc] have cb: "L_callbacks L1 = L_callbacks L0" .
    have "additions [c] = []" using nc by (cases c) auto
    moreover have "n \<le> MAX_CALLBACKS" using Cons.prems(1) by (simp add: filled_def)
    ultimately show ?thesis using Cons.prems(1) by (intro exI [of _ n]) (simp add: cb filled_cong [OF cb])
  qed
  then obtain n1 where n1: "filled n1 L1" "map (L_callbacks L1) [0 ..< n1] =
      take MAX_CALLBACKS (map (L_callbacks L0) [0 ..< n] @ additions [c])" by blast
  from Cons.IH [OF n1(1) r] obtain n' where n': "filled n' L"
    "map (L_callbacks L) [0 ..< n'] = take MAX_CALLBACKS (map (L_callbacks L1) [0 ..< n1] @ additions cs)"
    by blast
  have a: "additions (c # cs) = additions [c] @ additions cs" by (cases c) simp_all
  have "take MAX_CALLBACKS (take MAX_CALLBACKS (map (L_callbacks L0) [0 ..< n] @ additions [c]) @ additions cs)
      = take MAX_CALLBACKS (map (L_callbacks L0) [0 ..< n] @ additions (c # cs))"
    unfolding a by (simp add: take_append min_def) 
  with n' n1(2) show ?case by (intro exI [of _ n']) simp
qed

lemma filled_init: "filled 0 init_state"
  by (simp add: filled_def init_state_def)

lemma run_registered:
  assumes "run C vfmt init_state calls = Some L"
  shows "\<exists>n. filled n L \<and> registered L = take MAX_CALLBACKS (additions calls)"
proof -
  from run_filled [OF filled_init assms] obtain n where n: "filled n L"
    "map (L_callbacks L) [0 ..< n] = take MAX_CALLBACKS (additions calls)" by auto
  then show ?thesis using filled_registered [OF n(1)] by auto
qed

lemma registered_first_free:
  assumes k: "k < MAX_CALLBACKS" "cb_fn (L_callbacks L k) = NULL"
    and occ: "\<forall>j<k. cb_fn (L_callbacks L j) \<noteq> NULL"
  shows "registered L = map (L_callbacks L) [0 ..< k]"
proof -
  from k have "k \<le> MAX_CALLBACKS" by simp
  then obtain d where d: "MAX_CALLBACKS = k + d" using le_Suc_ex by blast
  have split: "[0 ..< MAX_CALLBACKS] = [0 ..< k] @ [k ..< MAX_CALLBACKS]"
    unfolding d by (rule upt_add_eq_append) simp
  have rest: "takeWhile (\<lambda>cb. cb_fn cb \<noteq> NULL) (map (L_callbacks L) [k ..< MAX_CALLBACKS]) = []"
    using k by (simp add: upt_conv_Cons)
  have "takeWhile (\<lambda>cb. cb_fn cb \<noteq> NULL) (map (L_callbacks L) [0 ..< k] @ map (L_callbacks L) [k ..< MAX_CALLBACKS])
      = map (L_callbacks L) [0 ..< k] @ takeWhile (\<lambda>cb. cb_fn cb \<noteq> NULL) (map (L_callbacks L) [k ..< MAX_CALLBACKS])"
    using occ by (intro takeWhile_append2) auto
  then show ?thesis unfolding registered_def split by (simp add: rest)
qed

lemma dispatch_from_cong:
  assumes "\<And>j. j < MAX_CALLBACKS \<Longrightarrow>
      (cb_fn (L_callbacks L1 j) = NULL \<and> cb_fn (L_callbacks L j) = NULL) \<or>
      L_callbacks L1 j = L_callbacks L j"
  shows "dispatch_from now L1 level i ev = dispatch_from now L level i ev"
  using assms
proof (induction now L level i ev rule: dispatch_from.induct)
  case (1 now L level i ev)
  note assms = "1.prems"
  show ?case
  proof (cases "i < MAX_CALLBACKS")
    case False
    then show ?thesis by (simp add: dispatch_from.simps [of now _ level i ev])
  next
    case lt: True
    show ?thesis
    proof (cases "cb_fn (L_callbacks L i) = NULL")
      case True
      with assms [OF lt] have "cb_fn (L_callbacks L1 i) = NULL" by auto
      with True lt show ?thesis by (simp add: dispatch_from.simps [of now _ level i ev])
    next
      case occ: False
      with assms [OF lt] have same: "L_callbacks L1 i = L_callbacks L i" by auto
      show ?thesis
      proof (cases "level \<ge> cb_level (L_callbacks L i)")
        case False
        from "1.IH"(2) [OF lt occ False assms] lt occ False same show ?thesis
          by (simp add: dispatch_from.simps [of now _ level i ev])
      next
        case True
        obtain ev' t where ie: "init_event now ev (cb_udata (L_callbacks L i)) = (ev', t)"
          by (cases "init_event now ev (cb_udata (L_callbacks L i))")
        from "1.IH"(1) [OF lt occ True ie [symmetric] assms] lt occ True same ie show ?thesis
          by (simp add: dispatch_from.simps [of now _ level i ev])
      qed
    qed
  qed
qed

lemma dispatch_from_nonnull:
  "ObserverCall f ev' \<in> set (dispatch_from now L level i ev) \<Longrightarrow> f \<noteq> NULL"
proof (induction now L level i ev rule: dispatch_from.induct)
  case (1 now L level i ev)
  show ?case
  proof (cases "i < MAX_CALLBACKS \<and> cb_fn (L_callbacks L i) \<noteq> NULL")
    case False
    with "1.prems" show ?thesis by (subst (asm) dispatch_from.simps) (auto split: if_splits)
  next
    case a: True
    show ?thesis
    proof (cases "level \<ge> cb_level (L_callbacks L i)")
      case False
      with a "1.prems" "1.IH"(2) show ?thesis
        by (subst (asm) dispatch_from.simps) (auto split: if_splits)
    next
      case True
      obtain ev1 t where ie: "init_event now ev (cb_udata (L_callbacks L i)) = (ev1, t)"
        by (cases "init_event now ev (cb_udata (L_callbacks L i))")
      then have t: "t = [TimeCall] \<or> t = []"
        using init_event_snd [of now ev "cb_udata (L_callbacks L i)"] by (auto split: option.splits)
      from a True ie "1.prems" have "ObserverCall f ev' \<in> set t \<or>
          f = cb_fn (L_callbacks L i) \<or>
          ObserverCall f ev' \<in> set (dispatch_from now L level (i + 1) ev1)"
        by (subst (asm) dispatch_from.simps) auto
      with t "1.IH"(1) [OF _ _ True ie [symmetric]] a show ?thesis by auto
    qed
  qed
qed

lemma log_log_trace_cong:
  assumes "L_quiet L1 = L_quiet L" "L_level L1 = L_level L" "lock L1 = lock L" "unlock L1 = unlock L"
    "stdout_buf L1 = stdout_buf L"
    "\<And>ev. dispatch_from now L1 level 0 ev = dispatch_from now L level 0 ev"
  shows "map_option fst (log_log C vfmt now L1 level file line fmt ap) =
     map_option fst (log_log C vfmt now L level file line fmt ap)"
proof (cases "\<not> L_quiet L \<and> L_level L \<le> level")
  case False
  then have q: "L_quiet L \<or> level < L_level L" "L_quiet L1 \<or> level < L_level L1"
    using assms(1,2) by auto
  show ?thesis unfolding log_log_silent [OF q(1)] log_log_silent [OF q(2)]
    by (simp add: assms)
next
  case True
  obtain ev' t where ie: "init_event now (new_event level file line fmt ap) NULL = (ev', t)"
    by (cases "init_event now (new_event level file line fmt ap) NULL")
  show ?thesis
  proof (cases "stdout_callback C vfmt (stdout_buf L) ev'")
    case None
    with True ie show ?thesis by (simp add: log_log_def assms)
  next
    case (Some r)
    obtain buf' out where "r = (buf', out)" by (cases r)
    with Some True ie show ?thesis by (simp add: log_log_def assms)
  qed
qed

lemma log_log_observer_nonnull:
  assumes "log_log C vfmt now L level file line fmt ap = Some (tr, S)"
    and "ObserverCall f ev \<in> set tr"
  shows "f \<noteq> NULL"
proof (cases "\<not> L_quiet L \<and> L_level L \<le> level")
  case False
  then have q: "L_quiet L \<or> level < L_level L" by auto
  from assms have "ObserverCall f ev \<in> set (dispatch_from now L level 0 (new_event level file line fmt ap))"
    unfolding log_log_silent [OF q] using lock_events [of "ObserverCall f ev" L]
      unlock_events [of "ObserverCall f ev" L]
    by (auto split: if_splits)
  then show ?thesis by (rule dispatch_from_nonnull)
next
  case True
  obtain ev' t where ie: "init_event now (new_event level file line fmt ap) NULL = (ev', t)"
    by (cases "init_event now (new_event level file line fmt ap) NULL")
  then have t: "t = [TimeCall] \<or> t = []"
    using init_event_snd [of now "new_event level file line fmt ap" NULL]
    by (auto split: option.splits)
  from assms(1) True ie obtain buf' out where
    "tr = lock L @ (Read Quiet # (if L_quiet L then [] else [Read Threshold])) @ t @ [SysWrite out] @
       dispatch_from now L level 0 ev' @ unlock L"
    by (auto simp add: log_log_def split: option.splits)
  with assms(2) t have "ObserverCall f ev \<in> set (dispatch_from now L level 0 ev')"
    using lock_events [of "ObserverCall f ev" L] unlock_events [of "ObserverCall f ev" L]
    by (auto split: if_splits)
  then show ?thesis by (rule dispatch_from_nonnull)
qed

section \<open>The emitted line\<close>

lemma last_semihosting_write: "0 < n \<Longrightarrow> last (semihosting_write f n) = f (n - 1)"
proof -
  assume n: "0 < n"
  then have ne: "semihosting_write f n \<noteq> []"
    using length_semihosting_write [of f n] by auto
  have "last (semihosting_write f n) = semihosting_write f n ! (nat n - 1)"
    using ne by (simp add: last_conv_nth length_semihosting_write)
  also have "\<dots> = f (int (nat n - 1))" using n by (intro nth_semihosting_write) simp
  also have "int (nat n - 1) = n - 1" using n by simp
  finally show ?thesis .
qed

lemma stdout_callback_of_format:
  "stdout_format C vfmt buf ev = Some (w, pos) \<Longrightarrow> in_bounds C w \<Longrightarrow>
   stdout_callback C vfmt buf ev = Some (bytes w, semihosting_write (bytes w) pos)"
  by (simp add: stdout_callback_def in_bounds_def)

lemma in_bounds_stores: "in_bounds C w \<Longrightarrow> i \<in> set (stores w) \<Longrightarrow> 0 \<le> i \<and> i \<le> int C - 1"
  by (auto simp add: in_bounds_def list_all_iff)

lemma level_strings_cases:
  assumes "0 \<le> l" "l < 6"
  obtains "l = 0" | "l = 1" | "l = 2" | "l = 3" | "l = 4" | "l = (5::int)"
  using assms by arith

lemma level_name_facts:
  assumes "0 \<le> l" "l < 6"
  shows "c_str (level_strings ! nat l) = level_strings ! nat l"
    and "CHR '' '' \<notin> set (level_strings ! nat l)"
    and "length (level_strings ! nat l) = (if l = 2 \<or> l = 3 then 4 else 5)"
  using assms by (cases l rule: level_strings_cases; simp add: level_strings_def c_str_def NUL_def)+

section \<open>Facts about the example inputs\<close>

lemma registered_two_observers:
  "registered two_observers =
     [\<lparr>cb_fn = 100, cb_udata = 1, cb_level = 3\<rparr>, \<lparr>cb_fn = 200, cb_udata = 2, cb_level = 4\<rparr>]"
  by code_simp

lemma run_setup_calls: "\<exists>L. run 64 plain_vfmt init_state setup_calls = Some L"
proof -
  have "run 64 plain_vfmt init_state setup_calls \<noteq> None" by code_simp
  then show ?thesis by blast
qed

lemma additions_setup_calls:
  "take MAX_CALLBACKS (additions setup_calls) =
     [\<lparr>cb_fn = 100, cb_udata = 1, cb_level = 3\<rparr>, \<lparr>cb_fn = 200, cb_udata = 2, cb_level = 4\<rparr>]"
  by code_simp

section \<open>The claims\<close>

text \<open>
  C1: for every call of \<^verbatim>\<open>log_log\<close> with a valid level, the primary sink path runs if
  and only if the quiet flag is clear and the level is at least the global threshold:
  the trace has a write to the transport exactly in that case, and what is written is
  the line \<^verbatim>\<open>stdout_callback\<close> formats for the event.  (The buffer has at least 2 bytes,
  and its size leaves room for the \<^verbatim>\<open>int\<close> arithmetic on \<^verbatim>\<open>pos\<close>.)
\<close>

theorem primary_sink_iff:
  assumes "2 \<le> C" "int C + 10 < 2 ^ 31" "0 \<le> level" "level < 6"
  shows "\<exists>tr L'. log_log C vfmt now L level file line fmt ap = Some (tr, L') \<and>
     ((\<exists>out. SysWrite out \<in> set tr) \<longleftrightarrow> (\<not> L_quiet L \<and> L_level L \<le> level)) \<and>
     (\<forall>out. SysWrite out \<in> set tr \<longrightarrow>
        stdout_callback C vfmt (stdout_buf L)
          ((new_event level file line fmt ap)\<lparr>ev_time := Some now\<rparr>) = Some (stdout_buf L', out))"
proof (cases "\<not> L_quiet L \<and> L_level L \<le> level")
  case True
  then have f: "\<not> L_quiet L" "L_level L \<le> level" by simp_all
  let ?ev = "(new_event level file line fmt ap)\<lparr>ev_time := Some now\<rparr>"
  from log_log_fires_line [OF assms f, of vfmt now "file" line fmt ap]
  obtain out0 buf' where cb: "stdout_callback C vfmt (stdout_buf L) ?ev = Some (buf', out0)"
    and lg: "log_log C vfmt now L level file line fmt ap =
      Some (lock L @ [Read Quiet, Read Threshold, TimeCall, SysWrite out0] @
              dispatch_from now L level 0 ?ev @ unlock L,
            L\<lparr>stdout_buf := buf'\<rparr>)"
    by blast
  let ?tr = "lock L @ [Read Quiet, Read Threshold, TimeCall, SysWrite out0] @
              dispatch_from now L level 0 ?ev @ unlock L"
  have only: "out = out0" if "SysWrite out \<in> set ?tr" for out
    using that lock_events [of "SysWrite out" L] unlock_events [of "SysWrite out" L]
      dispatch_from_events [of "SysWrite out" now L level 0 ?ev]
    by auto
  have "SysWrite out0 \<in> set ?tr" by simp
  with True cb only show ?thesis unfolding lg by (intro exI [of _ ?tr] exI [of _ "L\<lparr>stdout_buf := buf'\<rparr>"]) auto
next
  case False
  then have q: "L_quiet L \<or> level < L_level L" by auto
  have "\<not> is_SysWrite e"
    if "e \<in> set (lock L @ Read Quiet # (if L_quiet L then [] else [Read Threshold]) @
             dispatch_from now L level 0 (new_event level file line fmt ap) @ unlock L)" for e
    using that lock_events [of e L] unlock_events [of e L]
      dispatch_from_events [of e now L level 0 "new_event level file line fmt ap"]
    by (auto split: if_splits)
  then have "\<not> (\<exists>out. SysWrite out \<in> set (lock L @ Read Quiet # (if L_quiet L then [] else [Read Threshold]) @
             dispatch_from now L level 0 (new_event level file line fmt ap) @ unlock L))"
    using is_SysWrite.simps(1) by blast
  with False log_log_silent [OF q, of C vfmt now "file" line fmt ap] show ?thesis by simp
qed

text \<open>
  An instance: at level 3 the sink of a state that is not quiet fires, and the sink of the
  same state made quiet does not.
\<close>

theorem primary_sink_iff_witness:
  "(\<exists>tr L'. log_log 64 plain_vfmt noon two_observers 3 ''main.c'' 11 ''started'' [] = Some (tr, L') \<and>
      (\<exists>out. SysWrite out \<in> set tr)) \<and>
   (\<exists>tr L'. log_log 64 plain_vfmt noon (log_set_quiet True two_observers) 3 ''main.c'' 11 ''started'' [] =
        Some (tr, L') \<and>
      \<not> (\<exists>out. SysWrite out \<in> set tr)) \<and>
   map_option fst (log_log 64 plain_vfmt noon two_observers 3 ''main.c'' 11 ''started'' []) =
     Some [Read Quiet, Read Threshold, TimeCall,
           SysWrite ''12:34:56 WARN main.c:11: started\<newline>'', Read (Slot 0),
           ObserverCall 100
             \<lparr>ev_ap = [], ev_fmt = ''started'', ev_file = ''main.c'', ev_time = Some noon,
                ev_udata = 1, ev_line = 11, ev_level = 3\<rparr>,
           Read (Slot 1), Read (Slot 2)]"
proof -
  have h: "(2::nat) \<le> 64" "int 64 + 10 < 2 ^ 31" "(0::int) \<le> 3" "(3::int) < 6" by simp_all
  have on: "\<not> L_quiet two_observers \<and> L_level two_observers \<le> 3"
    by (simp add: two_observers_def init_state_def)
  have off: "\<not> (\<not> L_quiet (log_set_quiet True two_observers) \<and>
      L_level (log_set_quiet True two_observers) \<le> 3)"
    by (simp add: log_set_quiet_def)
  from primary_sink_iff [OF h, of plain_vfmt noon two_observers "''main.c''" 11 "''started''" "[]"] on
  have a: "\<exists>tr L'. log_log 64 plain_vfmt noon two_observers 3 ''main.c'' 11 ''started'' [] = Some (tr, L') \<and>
      (\<exists>out. SysWrite out \<in> set tr)"
    by blast
  from primary_sink_iff [OF h, of plain_vfmt noon "log_set_quiet True two_observers" "''main.c''" 11
      "''started''" "[]"] off
  have b: "\<exists>tr L'. log_log 64 plain_vfmt noon (log_set_quiet True two_observers) 3 ''main.c'' 11 ''started'' [] =
        Some (tr, L') \<and> \<not> (\<exists>out. SysWrite out \<in> set tr)"
    by blast
  have c: "map_option fst (log_log 64 plain_vfmt noon two_observers 3 ''main.c'' 11 ''started'' []) =
     Some [Read Quiet, Read Threshold, TimeCall,
           SysWrite ''12:34:56 WARN main.c:11: started\<newline>'', Read (Slot 0),
           ObserverCall 100
             \<lparr>ev_ap = [], ev_fmt = ''started'', ev_file = ''main.c'', ev_time = Some noon,
                ev_udata = 1, ev_line = 11, ev_level = 3\<rparr>,
           Read (Slot 1), Read (Slot 2)]"
    by code_simp
  from a b c show ?thesis by blast
qed

text \<open>
  C2: for every call of \<^verbatim>\<open>log_log\<close> with a valid level, the observers called are those
  of the entries the loop reaches whose minimum level is at most the level of the call,
  each once, with the entry's user data.  Neither the quiet flag nor the global threshold
  matters: whatever they are set to, the observer calls are the same.  In particular,
  after \<^verbatim>\<open>log_set_quiet\<close> the same observers are called with the same events; what the
  setter changes is the write to the transport, which with the flag set never happens
  and with the flag clear happens when the level reaches the threshold.
\<close>

theorem observers_by_level:
  assumes "2 \<le> C" "int C + 10 < 2 ^ 31" "0 \<le> level" "level < 6"
  shows "\<exists>tr L'. log_log C vfmt now L level file line fmt ap = Some (tr, L') \<and>
     observer_calls tr =
       map (\<lambda>cb. (cb_fn cb,
              (new_event level file line fmt ap)\<lparr>ev_time := Some now, ev_udata := cb_udata cb\<rparr>))
         (filter (\<lambda>cb. cb_level cb \<le> level) (registered L)) \<and>
     (\<forall>q th. \<exists>tr2 L2.
        log_log C vfmt now (L\<lparr>L_quiet := q, L_level := th\<rparr>) level file line fmt ap = Some (tr2, L2) \<and>
        observer_calls tr2 = observer_calls tr) \<and>
     (\<forall>enable. \<exists>tr3 L3.
        log_log C vfmt now (log_set_quiet enable L) level file line fmt ap = Some (tr3, L3) \<and>
        observer_calls tr3 = observer_calls tr \<and>
        ((\<exists>out. SysWrite out \<in> set tr3) \<longleftrightarrow> (\<not> enable \<and> L_level L \<le> level)))"
proof -
  from log_log_observer_calls [OF assms, of vfmt now L "file" line fmt ap]
  obtain tr L' where a: "log_log C vfmt now L level file line fmt ap = Some (tr, L')"
    "observer_calls tr =
       map (\<lambda>cb. (cb_fn cb,
              (new_event level file line fmt ap)\<lparr>ev_time := Some now, ev_udata := cb_udata cb\<rparr>))
         (filter (\<lambda>cb. cb_level cb \<le> level) (registered L))"
    by blast
  have b: "\<exists>tr2 L2.
        log_log C vfmt now (L\<lparr>L_quiet := q, L_level := th\<rparr>) level file line fmt ap = Some (tr2, L2) \<and>
        observer_calls tr2 = observer_calls tr" for q th
    using log_log_observer_calls [OF assms, of vfmt now "L\<lparr>L_quiet := q, L_level := th\<rparr>" "file" line fmt ap]
    by (auto simp add: a(2) registered_upd)
  have c: "\<exists>tr3 L3.
        log_log C vfmt now (log_set_quiet enable L) level file line fmt ap = Some (tr3, L3) \<and>
        observer_calls tr3 = observer_calls tr \<and>
        ((\<exists>out. SysWrite out \<in> set tr3) \<longleftrightarrow> (\<not> enable \<and> L_level L \<le> level))" for enable
    using log_log_writes_calls [OF assms, of vfmt now "log_set_quiet enable L" "file" line fmt ap]
    unfolding log_set_quiet_fields a(2) by blast
  from a b c show ?thesis by blast
qed

text \<open>
  An instance: with observers of minimum levels 3 and 4, a call at level 3 calls the first
  only, and a call at level 4 calls both, also when the state is quiet.
\<close>

theorem observers_by_level_witness:
  "(\<exists>tr L'. log_log 64 plain_vfmt noon two_observers 3 ''main.c'' 11 ''started'' [] = Some (tr, L') \<and>
      observer_calls tr =
        [(100, (new_event 3 ''main.c'' 11 ''started'' [])\<lparr>ev_time := Some noon, ev_udata := 1\<rparr>)]) \<and>
   (\<exists>tr L'. log_log 64 plain_vfmt noon (log_set_quiet True two_observers) 4 ''main.c'' 11 ''started'' [] =
        Some (tr, L') \<and>
      observer_calls tr =
        [(100, (new_event 4 ''main.c'' 11 ''started'' [])\<lparr>ev_time := Some noon, ev_udata := 1\<rparr>),
         (200, (new_event 4 ''main.c'' 11 ''started'' [])\<lparr>ev_time := Some noon, ev_udata := 2\<rparr>)]) \<and>
   (\<exists>tr L' tr3 L3.
      log_log 64 plain_vfmt noon two_observers 4 ''main.c'' 11 ''started'' [] = Some (tr, L') \<and>
      log_log 64 plain_vfmt noon (log_set_quiet True two_observers) 4 ''main.c'' 11 ''started'' [] =
        Some (tr3, L3) \<and>
      observer_calls tr3 = observer_calls tr \<and>
      observer_calls tr3 =
        [(100, (new_event 4 ''main.c'' 11 ''started'' [])\<lparr>ev_time := Some noon, ev_udata := 1\<rparr>),
         (200, (new_event 4 ''main.c'' 11 ''started'' [])\<lparr>ev_time := Some noon, ev_udata := 2\<rparr>)] \<and>
      \<not> (\<exists>out. SysWrite out \<in> set tr3))"
proof -
  have h3: "(2::nat) \<le> 64" "int 64 + 10 < 2 ^ 31" "(0::int) \<le> 3" "(3::int) < 6" by simp_all
  have h4: "(2::nat) \<le> 64" "int 64 + 10 < 2 ^ 31" "(0::int) \<le> 4" "(4::int) < 6" by simp_all
  have r: "registered (log_set_quiet True two_observers) = registered two_observers"
    by (simp add: registered_def log_set_quiet_def)
  from observers_by_level [OF h3, of plain_vfmt noon two_observers "''main.c''" 11 "''started''" "[]"]
  have a: "\<exists>tr L'. log_log 64 plain_vfmt noon two_observers 3 ''main.c'' 11 ''started'' [] = Some (tr, L') \<and>
      observer_calls tr =
        [(100, (new_event 3 ''main.c'' 11 ''started'' [])\<lparr>ev_time := Some noon, ev_udata := 1\<rparr>)]"
    unfolding registered_two_observers by auto
  from observers_by_level [OF h4, of plain_vfmt noon "log_set_quiet True two_observers" "''main.c''" 11
      "''started''" "[]"]
  have b: "\<exists>tr L'. log_log 64 plain_vfmt noon (log_set_quiet True two_observers) 4 ''main.c'' 11 ''started'' [] =
        Some (tr, L') \<and>
      observer_calls tr =
        [(100, (new_event 4 ''main.c'' 11 ''started'' [])\<lparr>ev_time := Some noon, ev_udata := 1\<rparr>),
         (200, (new_event 4 ''main.c'' 11 ''started'' [])\<lparr>ev_time := Some noon, ev_udata := 2\<rparr>)]"
    unfolding r registered_two_observers by auto
  from observers_by_level [OF h4, of plain_vfmt noon two_observers "''main.c''" 11 "''started''" "[]"]
  obtain tr L' where c: "log_log 64 plain_vfmt noon two_observers 4 ''main.c'' 11 ''started'' [] = Some (tr, L')"
    "observer_calls tr =
        [(100, (new_event 4 ''main.c'' 11 ''started'' [])\<lparr>ev_time := Some noon, ev_udata := 1\<rparr>),
         (200, (new_event 4 ''main.c'' 11 ''started'' [])\<lparr>ev_time := Some noon, ev_udata := 2\<rparr>)]"
    and s: "\<forall>enable. \<exists>tr3 L3.
        log_log 64 plain_vfmt noon (log_set_quiet enable two_observers) 4 ''main.c'' 11 ''started'' [] =
          Some (tr3, L3) \<and>
        observer_calls tr3 = observer_calls tr \<and>
        ((\<exists>out. SysWrite out \<in> set tr3) \<longleftrightarrow> (\<not> enable \<and> L_level two_observers \<le> 4))"
    unfolding registered_two_observers by auto
  from s [rule_format, of True]
  obtain tr3 L3 where d:
    "log_log 64 plain_vfmt noon (log_set_quiet True two_observers) 4 ''main.c'' 11 ''started'' [] =
        Some (tr3, L3)"
    "observer_calls tr3 = observer_calls tr" "\<not> (\<exists>out. SysWrite out \<in> set tr3)"
    by auto
  from c d have "\<exists>tr L' tr3 L3.
      log_log 64 plain_vfmt noon two_observers 4 ''main.c'' 11 ''started'' [] = Some (tr, L') \<and>
      log_log 64 plain_vfmt noon (log_set_quiet True two_observers) 4 ''main.c'' 11 ''started'' [] =
        Some (tr3, L3) \<and>
      observer_calls tr3 = observer_calls tr \<and>
      observer_calls tr3 =
        [(100, (new_event 4 ''main.c'' 11 ''started'' [])\<lparr>ev_time := Some noon, ev_udata := 1\<rparr>),
         (200, (new_event 4 ''main.c'' 11 ''started'' [])\<lparr>ev_time := Some noon, ev_udata := 2\<rparr>)] \<and>
      \<not> (\<exists>out. SysWrite out \<in> set tr3)"
    by (intro exI [of _ tr] exI [of _ L'] exI [of _ tr3] exI [of _ L3]) simp
  with a b show ?thesis by blast
qed

text \<open>
  C3: \<^verbatim>\<open>log_add_callback\<close> succeeds whenever the table has an unoccupied slot: it stores
  the entry in the first such slot and returns 0.  When all \<open>MAX_CALLBACKS\<close> slots are
  occupied it returns -1, a value other than the success value, and leaves the state as
  it is: the table still holds its \<open>MAX_CALLBACKS\<close> entries, in their order.
\<close>

theorem log_add_callback_capacity:
  "((\<exists>i<MAX_CALLBACKS. cb_fn (L_callbacks L i) = NULL) \<longrightarrow>
      (\<exists>k<MAX_CALLBACKS. cb_fn (L_callbacks L k) = NULL \<and>
         (\<forall>j<k. cb_fn (L_callbacks L j) \<noteq> NULL) \<and>
         log_add_callback fn udata level L =
           (L\<lparr>L_callbacks := (L_callbacks L)
                (k := \<lparr>cb_fn = fn, cb_udata = udata, cb_level = level\<rparr>)\<rparr>, 0))) \<and>
   ((\<forall>i<MAX_CALLBACKS. cb_fn (L_callbacks L i) \<noteq> NULL) \<longrightarrow>
      log_add_callback fn udata level L = (L, - 1) \<and>
      registered (fst (log_add_callback fn udata level L)) = map (L_callbacks L) [0 ..< MAX_CALLBACKS] \<and>
      length (registered (fst (log_add_callback fn udata level L))) = MAX_CALLBACKS)"
proof (intro conjI impI)
  assume "\<exists>i<MAX_CALLBACKS. cb_fn (L_callbacks L i) = NULL"
  then obtain k where k: "k < MAX_CALLBACKS" "cb_fn (L_callbacks L k) = NULL"
      "\<forall>j<k. cb_fn (L_callbacks L j) \<noteq> NULL"
    using first_free_slot [of MAX_CALLBACKS "L_callbacks L"] by blast
  then have "log_add_callback fn udata level L =
      (L\<lparr>L_callbacks := (L_callbacks L)(k := \<lparr>cb_fn = fn, cb_udata = udata, cb_level = level\<rparr>)\<rparr>, 0)"
    unfolding log_add_callback_def by (intro add_callback_from_free) auto
  with k show "\<exists>k<MAX_CALLBACKS. cb_fn (L_callbacks L k) = NULL \<and>
         (\<forall>j<k. cb_fn (L_callbacks L j) \<noteq> NULL) \<and>
         log_add_callback fn udata level L =
           (L\<lparr>L_callbacks := (L_callbacks L)
                (k := \<lparr>cb_fn = fn, cb_udata = udata, cb_level = level\<rparr>)\<rparr>, 0)"
    by blast
next
  assume full: "\<forall>i<MAX_CALLBACKS. cb_fn (L_callbacks L i) \<noteq> NULL"
  then show eq: "log_add_callback fn udata level L = (L, - 1)"
    unfolding log_add_callback_def by (intro add_callback_from_full) auto
  show "registered (fst (log_add_callback fn udata level L)) = map (L_callbacks L) [0 ..< MAX_CALLBACKS]"
    using full by (simp add: eq registered_full)
  then show "length (registered (fst (log_add_callback fn udata level L))) = MAX_CALLBACKS"
    by simp
qed

text \<open>
  An instance: a registration in the empty table fills slot 0, and one in a full table
  returns -1.
\<close>

theorem log_add_callback_capacity_witness:
  "log_add_callback 7 0 3 init_state =
     (init_state\<lparr>L_callbacks := (L_callbacks init_state)
        (0 := \<lparr>cb_fn = 7, cb_udata = 0, cb_level = 3\<rparr>)\<rparr>, 0) \<and>
   log_add_callback 7 0 3 full_state = (full_state, - 1) \<and>
   length (registered (fst (log_add_callback 7 0 3 full_state))) = 32"
proof -
  have free: "\<exists>i<MAX_CALLBACKS. cb_fn (L_callbacks init_state i) = NULL"
    by (intro exI [of _ 0]) (simp add: init_state_def MAX_CALLBACKS_def)
  have full: "\<forall>i<MAX_CALLBACKS. cb_fn (L_callbacks full_state i) \<noteq> NULL"
    by (simp add: full_state_def init_state_def NULL_def)
  from log_add_callback_capacity [where L = init_state and fn = 7 and udata = 0 and level = 3] free
  obtain k where k: "\<forall>j<k. cb_fn (L_callbacks init_state j) \<noteq> NULL"
    "log_add_callback 7 0 3 init_state =
       (init_state\<lparr>L_callbacks := (L_callbacks init_state)
          (k := \<lparr>cb_fn = 7, cb_udata = 0, cb_level = 3\<rparr>)\<rparr>, 0)"
    by blast
  have "k = 0"
  proof (rule ccontr)
    assume "k \<noteq> 0"
    then have "0 < k" by simp
    with k(1) have "cb_fn (L_callbacks init_state 0) \<noteq> NULL" by blast
    then show False by (simp add: init_state_def)
  qed
  with k(2) have a: "log_add_callback 7 0 3 init_state =
     (init_state\<lparr>L_callbacks := (L_callbacks init_state)
        (0 := \<lparr>cb_fn = 7, cb_udata = 0, cb_level = 3\<rparr>)\<rparr>, 0)" by simp
  from log_add_callback_capacity [where L = full_state and fn = 7 and udata = 0 and level = 3] full
  have "log_add_callback 7 0 3 full_state = (full_state, - 1)"
    "length (registered (fst (log_add_callback 7 0 3 full_state))) = MAX_CALLBACKS"
    by blast+
  with a show ?thesis by (simp add: MAX_CALLBACKS_def)
qed

text \<open>
  C4: for every event with a time and a valid level, and a buffer of \<open>C \<ge> 2\<close> bytes, the
  formatter stores no byte outside the indices 0 to \<open>C - 1\<close>, and the line it emits is not
  empty and ends with the newline.  With room for the time (\<open>C \<ge> 9\<close>) the line is the
  text \<^verbatim>\<open>HH:MM:SS LEVEL file:line: message\<close> cut to \<open>C - 2\<close> bytes, followed by the newline:
  a text that does not fit is truncated, and the newline takes the byte at index \<open>C - 2\<close>,
  the last one a line may use.
\<close>

theorem formatter_bounds_newline:
  assumes "2 \<le> C" "int C + 10 < 2 ^ 31"
    and "ev_time ev = Some t" "0 \<le> ev_level ev" "ev_level ev < 6"
  shows "\<exists>w pos out. stdout_format C vfmt buf ev = Some (w, pos) \<and>
     stdout_callback C vfmt buf ev = Some (bytes w, out) \<and>
     (\<forall>i \<in> set (stores w). 0 \<le> i \<and> i \<le> int C - 1) \<and>
     out \<noteq> [] \<and> last out = CHR 0x0A \<and> length out \<le> C - 1 \<and>
     (9 \<le> C \<longrightarrow>
        out = take (C - 2) (line_text t (level_strings ! nat (ev_level ev)) (ev_file ev) (ev_line ev)
                (vfmt (ev_fmt ev) (ev_ap ev))) @ [CHR 0x0A])"
proof -
  have lvl: "log_level_string (ev_level ev) = Some (level_strings ! nat (ev_level ev))"
    using assms(4,5) by (simp add: log_level_string_def level_strings_def)
  from stdout_format_bounds [OF assms(1-3) lvl, of vfmt buf]
  obtain w pos where f: "stdout_format C vfmt buf ev = Some (w, pos)" and b: "in_bounds C w"
    and p: "0 < pos" "pos \<le> int C - 1" and nl: "bytes w (pos - 1) = CHR 0x0A"
    by blast
  let ?out = "semihosting_write (bytes w) pos"
  have cb: "stdout_callback C vfmt buf ev = Some (bytes w, ?out)"
    by (rule stdout_callback_of_format [OF f b])
  have st: "\<forall>i \<in> set (stores w). 0 \<le> i \<and> i \<le> int C - 1"
    using in_bounds_stores [OF b] by blast
  have ne: "?out \<noteq> []" using p length_semihosting_write [of "bytes w" pos] by auto
  have la: "last ?out = CHR 0x0A" using p nl by (simp add: last_semihosting_write)
  have le: "length ?out \<le> C - 1" using p by (simp add: length_semihosting_write)
  have tx: "9 \<le> C \<longrightarrow>
        ?out = take (C - 2) (line_text t (level_strings ! nat (ev_level ev)) (ev_file ev) (ev_line ev)
                (vfmt (ev_fmt ev) (ev_ap ev))) @ [CHR 0x0A]"
  proof
    assume "9 \<le> C"
    from stdout_format_line [OF this assms(2,3) lvl, of vfmt buf] f
    show "?out = take (C - 2) (line_text t (level_strings ! nat (ev_level ev)) (ev_file ev) (ev_line ev)
                (vfmt (ev_fmt ev) (ev_ap ev))) @ [CHR 0x0A]"
      by auto
  qed
  from f cb st ne la le tx show ?thesis by blast
qed

text \<open>
  An instance: in a buffer of 16 bytes the line is cut after the level, and the newline is
  stored at index 14.
\<close>

theorem formatter_bounds_newline_witness:
  "(\<exists>w pos out. stdout_format 16 plain_vfmt (\<lambda>_. NUL) info_event = Some (w, pos) \<and>
      stdout_callback 16 plain_vfmt (\<lambda>_. NUL) info_event = Some (bytes w, out) \<and>
      list_all (\<lambda>i. 0 \<le> i \<and> i \<le> 15) (stores w) \<and>
      last out = CHR 0x0A \<and> out = ''12:34:56 INFO \<newline>'') \<and>
   map_option (\<lambda>r. stores (fst r)) (stdout_format 16 plain_vfmt (\<lambda>_. NUL) info_event) =
     Some [0, 1, 2, 3, 4, 5, 6, 7, 8, 8, 9, 10, 11, 12, 13, 14, 15, 14]"
proof -
  have h: "(2::nat) \<le> 16" "int 16 + 10 < 2 ^ 31" "ev_time info_event = Some noon"
    "0 \<le> ev_level info_event" "ev_level info_event < 6"
    by (simp_all add: info_event_def new_event_def)
  have l: "take (16 - 2) (line_text noon (level_strings ! nat (ev_level info_event)) (ev_file info_event)
      (ev_line info_event) (plain_vfmt (ev_fmt info_event) (ev_ap info_event))) @ [CHR 0x0A] =
      ''12:34:56 INFO \<newline>''"
    by code_simp
  from formatter_bounds_newline [OF h, of plain_vfmt "\<lambda>_. NUL"]
  have a: "\<exists>w pos out. stdout_format 16 plain_vfmt (\<lambda>_. NUL) info_event = Some (w, pos) \<and>
      stdout_callback 16 plain_vfmt (\<lambda>_. NUL) info_event = Some (bytes w, out) \<and>
      list_all (\<lambda>i. 0 \<le> i \<and> i \<le> 15) (stores w) \<and>
      last out = CHR 0x0A \<and> out = ''12:34:56 INFO \<newline>''"
    unfolding l list_all_iff by auto
  have b: "map_option (\<lambda>r. stores (fst r)) (stdout_format 16 plain_vfmt (\<lambda>_. NUL) info_event) =
     Some [0, 1, 2, 3, 4, 5, 6, 7, 8, 8, 9, 10, 11, 12, 13, 14, 15, 14]"
    by code_simp
  from a b show ?thesis by blast
qed

text \<open>
  C5: when a lock hook is installed, the trace of every call of \<^verbatim>\<open>log_log\<close> with a valid
  level begins with the call of the hook in acquire mode, ends with its call in release
  mode, and has no other call of the hook: the acquire comes before every read of the
  quiet flag, the threshold and the registry, and the release after every write to the
  transport and every observer call.
\<close>

theorem lock_discipline:
  assumes "2 \<le> C" "int C + 10 < 2 ^ 31" "0 \<le> level" "level < 6"
    and hook: "L_lock L \<noteq> NULL"
  shows "\<exists>tr L' mid. log_log C vfmt now L level file line fmt ap = Some (tr, L') \<and>
     tr = LockCall (L_lock L) True (L_udata L) # mid @ [LockCall (L_lock L) False (L_udata L)] \<and>
     (\<forall>e \<in> set mid. \<not> is_LockCall e)"
proof (cases "\<not> L_quiet L \<and> L_level L \<le> level")
  case True
  with log_log_fires [OF assms(1-4), of L vfmt now "file" line fmt ap]
  obtain out buf' where "log_log C vfmt now L level file line fmt ap =
     Some (lock L @ [Read Quiet, Read Threshold, TimeCall, SysWrite out] @
             dispatch_from now L level 0 ((new_event level file line fmt ap)\<lparr>ev_time := Some now\<rparr>) @
             unlock L,
           L\<lparr>stdout_buf := buf'\<rparr>)" by blast
  then have "log_log C vfmt now L level file line fmt ap =
     Some (LockCall (L_lock L) True (L_udata L) #
            ([Read Quiet, Read Threshold, TimeCall, SysWrite out] @
             dispatch_from now L level 0 ((new_event level file line fmt ap)\<lparr>ev_time := Some now\<rparr>)) @
             [LockCall (L_lock L) False (L_udata L)],
           L\<lparr>stdout_buf := buf'\<rparr>)"
    using hook by (simp add: lock_def unlock_def)
  moreover have "\<forall>e \<in> set ([Read Quiet, Read Threshold, TimeCall, SysWrite out] @
             dispatch_from now L level 0 ((new_event level file line fmt ap)\<lparr>ev_time := Some now\<rparr>)).
      \<not> is_LockCall e"
    using dispatch_from_events [of _ now L level 0] by auto
  ultimately show ?thesis by blast
next
  case False
  then have q: "L_quiet L \<or> level < L_level L" by auto
  have "log_log C vfmt now L level file line fmt ap =
     Some (LockCall (L_lock L) True (L_udata L) #
             (Read Quiet # (if L_quiet L then [] else [Read Threshold]) @
              dispatch_from now L level 0 (new_event level file line fmt ap)) @
             [LockCall (L_lock L) False (L_udata L)],
           L)"
    unfolding log_log_silent [OF q] using hook by (simp add: lock_def unlock_def)
  moreover have "\<forall>e \<in> set (Read Quiet # (if L_quiet L then [] else [Read Threshold]) @
              dispatch_from now L level 0 (new_event level file line fmt ap)).
      \<not> is_LockCall e"
    using dispatch_from_events [of _ now L level 0] by auto
  ultimately show ?thesis by blast
qed

text \<open>
  An instance: a state with the hook 500 and the user data 9.
\<close>

theorem lock_discipline_witness:
  "(\<exists>tr L' mid. log_log 64 plain_vfmt noon locked_state 4 ''main.c'' 11 ''started'' [] = Some (tr, L') \<and>
      tr = LockCall 500 True 9 # mid @ [LockCall 500 False 9] \<and> list_all (\<lambda>e. \<not> is_LockCall e) mid) \<and>
   map_option fst (log_log 64 plain_vfmt noon locked_state 4 ''main.c'' 11 ''started'' []) =
     Some [LockCall 500 True 9, Read Quiet, Read Threshold, TimeCall,
           SysWrite ''12:34:56 ERROR main.c:11: started\<newline>'', Read (Slot 0),
           ObserverCall 100
             \<lparr>ev_ap = [], ev_fmt = ''started'', ev_file = ''main.c'', ev_time = Some noon,
                ev_udata = 1, ev_line = 11, ev_level = 4\<rparr>,
           Read (Slot 1),
           ObserverCall 200
             \<lparr>ev_ap = [], ev_fmt = ''started'', ev_file = ''main.c'', ev_time = Some noon,
                ev_udata = 2, ev_line = 11, ev_level = 4\<rparr>,
           Read (Slot 2), LockCall 500 False 9]"
proof -
  have h: "(2::nat) \<le> 64" "int 64 + 10 < 2 ^ 31" "(0::int) \<le> 4" "(4::int) < 6" by simp_all
  have hook: "L_lock locked_state \<noteq> NULL" by (simp add: locked_state_def NULL_def)
  have v: "L_lock locked_state = 500" "L_udata locked_state = 9" by (simp_all add: locked_state_def)
  from lock_discipline [OF h hook, of plain_vfmt noon "''main.c''" 11 "''started''" "[]"]
  have a: "\<exists>tr L' mid. log_log 64 plain_vfmt noon locked_state 4 ''main.c'' 11 ''started'' [] = Some (tr, L') \<and>
      tr = LockCall 500 True 9 # mid @ [LockCall 500 False 9] \<and> list_all (\<lambda>e. \<not> is_LockCall e) mid"
    unfolding v list_all_iff by blast
  have b: "map_option fst (log_log 64 plain_vfmt noon locked_state 4 ''main.c'' 11 ''started'' []) =
     Some [LockCall 500 True 9, Read Quiet, Read Threshold, TimeCall,
           SysWrite ''12:34:56 ERROR main.c:11: started\<newline>'', Read (Slot 0),
           ObserverCall 100
             \<lparr>ev_ap = [], ev_fmt = ''started'', ev_file = ''main.c'', ev_time = Some noon,
                ev_udata = 1, ev_line = 11, ev_level = 4\<rparr>,
           Read (Slot 1),
           ObserverCall 200
             \<lparr>ev_ap = [], ev_fmt = ''started'', ev_file = ''main.c'', ev_time = Some noon,
                ev_udata = 2, ev_line = 11, ev_level = 4\<rparr>,
           Read (Slot 2), LockCall 500 False 9]"
    by code_simp
  from a b show ?thesis by blast
qed

text \<open>
  C6: in the trace of a call of \<^verbatim>\<open>log_log\<close>, made in a state that a sequence of calls
  of the public operations has reached, the write to the transport comes before every
  observer call, and the observers called are the qualifying ones in the order of their
  registration.
\<close>

theorem dispatch_order:
  assumes cap: "2 \<le> C" "int C + 10 < 2 ^ 31" "0 \<le> level" "level < 6"
    and run: "run C vfmt init_state calls = Some L"
  shows "\<exists>tr L' pre post. log_log C vfmt now L level file line fmt ap = Some (tr, L') \<and>
     tr = pre @ post \<and> (\<forall>e \<in> set pre. \<not> is_ObserverCall e) \<and> (\<forall>e \<in> set post. \<not> is_SysWrite e) \<and>
     observer_calls tr =
       map (\<lambda>cb. (cb_fn cb,
              (new_event level file line fmt ap)\<lparr>ev_time := Some now, ev_udata := cb_udata cb\<rparr>))
         (filter (\<lambda>cb. cb_level cb \<le> level) (take MAX_CALLBACKS (additions calls)))"
proof -
  from run_registered [OF run] have reg: "registered L = take MAX_CALLBACKS (additions calls)" by blast
  from log_log_observer_calls [OF cap, of vfmt now L "file" line fmt ap]
  obtain tr L' where tr: "log_log C vfmt now L level file line fmt ap = Some (tr, L')"
    "observer_calls tr =
       map (\<lambda>cb. (cb_fn cb,
              (new_event level file line fmt ap)\<lparr>ev_time := Some now, ev_udata := cb_udata cb\<rparr>))
         (filter (\<lambda>cb. cb_level cb \<le> level) (take MAX_CALLBACKS (additions calls)))"
    unfolding reg by blast
  have "\<exists>pre post. tr = pre @ post \<and> (\<forall>e \<in> set pre. \<not> is_ObserverCall e) \<and>
      (\<forall>e \<in> set post. \<not> is_SysWrite e)"
  proof (cases "\<not> L_quiet L \<and> L_level L \<le> level")
    case True
    with log_log_fires [OF cap, of L vfmt now "file" line fmt ap] tr(1)
    obtain out where "tr = (lock L @ [Read Quiet, Read Threshold, TimeCall, SysWrite out]) @
        (dispatch_from now L level 0 ((new_event level file line fmt ap)\<lparr>ev_time := Some now\<rparr>) @ unlock L)"
      by auto
    moreover have "\<forall>e \<in> set (lock L @ [Read Quiet, Read Threshold, TimeCall, SysWrite out]). \<not> is_ObserverCall e"
      using lock_events [of _ L] by auto
    moreover have "\<forall>e \<in> set (dispatch_from now L level 0 ((new_event level file line fmt ap)\<lparr>ev_time := Some now\<rparr>) @ unlock L).
        \<not> is_SysWrite e"
      using unlock_events [of _ L] dispatch_from_events [of _ now L level 0] by auto
    ultimately show ?thesis by blast
  next
    case False
    then have q: "L_quiet L \<or> level < L_level L" by auto
    have "\<not> is_SysWrite e" if "e \<in> set tr" for e
      using that tr(1) lock_events [of e L] unlock_events [of e L]
        dispatch_from_events [of e now L level 0 "new_event level file line fmt ap"]
      unfolding log_log_silent [OF q] by (auto split: if_splits)
    then show ?thesis by (intro exI [of _ "[]"] exI [of _ tr]) simp
  qed
  with tr show ?thesis by blast
qed

text \<open>
  An instance: the state the example sequence of calls reaches, and a call at level 4.
\<close>

theorem dispatch_order_witness:
  "(\<exists>L tr L' pre post. run 64 plain_vfmt init_state setup_calls = Some L \<and>
      log_log 64 plain_vfmt noon L 4 ''main.c'' 11 ''started'' [] = Some (tr, L') \<and>
      tr = pre @ post \<and> list_all (\<lambda>e. \<not> is_ObserverCall e) pre \<and>
      list_all (\<lambda>e. \<not> is_SysWrite e) post \<and>
      observer_calls tr =
        [(100, (new_event 4 ''main.c'' 11 ''started'' [])\<lparr>ev_time := Some noon, ev_udata := 1\<rparr>),
         (200, (new_event 4 ''main.c'' 11 ''started'' [])\<lparr>ev_time := Some noon, ev_udata := 2\<rparr>)]) \<and>
   (case run 64 plain_vfmt init_state setup_calls of
      None \<Rightarrow> None
    | Some L \<Rightarrow> map_option fst (log_log 64 plain_vfmt noon L 4 ''main.c'' 11 ''started'' [])) =
     Some [LockCall 500 True 9, Read Quiet, Read Threshold, TimeCall,
           SysWrite ''12:34:56 ERROR main.c:11: started\<newline>'', Read (Slot 0),
           ObserverCall 100
             \<lparr>ev_ap = [], ev_fmt = ''started'', ev_file = ''main.c'', ev_time = Some noon,
                ev_udata = 1, ev_line = 11, ev_level = 4\<rparr>,
           Read (Slot 1),
           ObserverCall 200
             \<lparr>ev_ap = [], ev_fmt = ''started'', ev_file = ''main.c'', ev_time = Some noon,
                ev_udata = 2, ev_line = 11, ev_level = 4\<rparr>,
           Read (Slot 2), LockCall 500 False 9]"
proof -
  have h: "(2::nat) \<le> 64" "int 64 + 10 < 2 ^ 31" "(0::int) \<le> 4" "(4::int) < 6" by simp_all
  from run_setup_calls obtain L where L: "run 64 plain_vfmt init_state setup_calls = Some L" ..
  from dispatch_order [OF h L, of noon "''main.c''" 11 "''started''" "[]"]
  have a: "\<exists>tr L' pre post.
      log_log 64 plain_vfmt noon L 4 ''main.c'' 11 ''started'' [] = Some (tr, L') \<and>
      tr = pre @ post \<and> list_all (\<lambda>e. \<not> is_ObserverCall e) pre \<and>
      list_all (\<lambda>e. \<not> is_SysWrite e) post \<and>
      observer_calls tr =
        [(100, (new_event 4 ''main.c'' 11 ''started'' [])\<lparr>ev_time := Some noon, ev_udata := 1\<rparr>),
         (200, (new_event 4 ''main.c'' 11 ''started'' [])\<lparr>ev_time := Some noon, ev_udata := 2\<rparr>)]"
    unfolding additions_setup_calls list_all_iff by auto
  have b: "(case run 64 plain_vfmt init_state setup_calls of
      None \<Rightarrow> None
    | Some L \<Rightarrow> map_option fst (log_log 64 plain_vfmt noon L 4 ''main.c'' 11 ''started'' [])) =
     Some [LockCall 500 True 9, Read Quiet, Read Threshold, TimeCall,
           SysWrite ''12:34:56 ERROR main.c:11: started\<newline>'', Read (Slot 0),
           ObserverCall 100
             \<lparr>ev_ap = [], ev_fmt = ''started'', ev_file = ''main.c'', ev_time = Some noon,
                ev_udata = 1, ev_line = 11, ev_level = 4\<rparr>,
           Read (Slot 1),
           ObserverCall 200
             \<lparr>ev_ap = [], ev_fmt = ''started'', ev_file = ''main.c'', ev_time = Some noon,
                ev_udata = 2, ev_line = 11, ev_level = 4\<rparr>,
           Read (Slot 2), LockCall 500 False 9]"
    by code_simp
  from a L b show ?thesis by blast
qed

text \<open>
  C7, as amended: the longest line the primary sink emits has one byte less than the
  buffer.  No line is longer than \<open>C - 1\<close> bytes; a message of at least \<open>C\<close> characters gives
  a line of exactly \<open>C - 1\<close> bytes; and with room for the time (\<open>C \<ge> 9\<close>) the length of the
  line is the smaller of \<open>C - 1\<close> and the length of the whole text with its newline.
\<close>

theorem line_length_max:
  assumes "2 \<le> C" "int C + 10 < 2 ^ 31"
    and "ev_time ev = Some t" "0 \<le> ev_level ev" "ev_level ev < 6"
  shows "\<exists>buf' out. stdout_callback C vfmt buf ev = Some (buf', out) \<and>
     length out \<le> C - 1 \<and>
     (\<forall>m. vfmt (ev_fmt ev) (ev_ap ev) = Some m \<and> C \<le> length m \<and> int (length m) < 2 ^ 31 \<longrightarrow>
        length out = C - 1) \<and>
     (9 \<le> C \<longrightarrow>
        length out = min (C - 1) (length (line_text t (level_strings ! nat (ev_level ev)) (ev_file ev)
           (ev_line ev) (vfmt (ev_fmt ev) (ev_ap ev))) + 1))"
proof -
  have lvl: "log_level_string (ev_level ev) = Some (level_strings ! nat (ev_level ev))"
    using assms(4,5) by (simp add: log_level_string_def level_strings_def)
  from stdout_format_bounds [OF assms(1-3) lvl, of vfmt buf]
  obtain w pos where f: "stdout_format C vfmt buf ev = Some (w, pos)" and b: "in_bounds C w"
    and p: "0 < pos" "pos \<le> int C - 1"
    and long: "\<forall>m. vfmt (ev_fmt ev) (ev_ap ev) = Some m \<and> C \<le> length m \<and> int (length m) < 2 ^ 31
        \<longrightarrow> pos = int C - 1"
    by blast
  let ?out = "semihosting_write (bytes w) pos"
  have cb: "stdout_callback C vfmt buf ev = Some (bytes w, ?out)"
    by (rule stdout_callback_of_format [OF f b])
  have le: "length ?out \<le> C - 1" using p by (simp add: length_semihosting_write)
  have lg: "\<forall>m. vfmt (ev_fmt ev) (ev_ap ev) = Some m \<and> C \<le> length m \<and> int (length m) < 2 ^ 31 \<longrightarrow>
        length ?out = C - 1"
    using long assms(1) by (auto simp add: length_semihosting_write)
  have ex: "9 \<le> C \<longrightarrow>
        length ?out = min (C - 1) (length (line_text t (level_strings ! nat (ev_level ev)) (ev_file ev)
           (ev_line ev) (vfmt (ev_fmt ev) (ev_ap ev))) + 1)"
  proof
    assume c: "9 \<le> C"
    from stdout_format_line [OF this assms(2,3) lvl, of vfmt buf] f
    have "?out = take (C - 2) (line_text t (level_strings ! nat (ev_level ev)) (ev_file ev) (ev_line ev)
                (vfmt (ev_fmt ev) (ev_ap ev))) @ [CHR 0x0A]"
      by auto
    then have "length ?out = min (length (line_text t (level_strings ! nat (ev_level ev)) (ev_file ev)
           (ev_line ev) (vfmt (ev_fmt ev) (ev_ap ev)))) (C - 2) + 1"
      by simp
    with c show "length ?out = min (C - 1) (length (line_text t (level_strings ! nat (ev_level ev)) (ev_file ev)
           (ev_line ev) (vfmt (ev_fmt ev) (ev_ap ev))) + 1)"
      by simp
  qed
  from cb le lg ex show ?thesis by blast
qed

text \<open>
  An instance: a message of 40 characters in a buffer of 32 bytes.
\<close>

theorem line_length_max_witness:
  "\<exists>buf' out. stdout_callback 32 plain_vfmt (\<lambda>_. NUL) long_event = Some (buf', out) \<and>
     length out \<le> 31 \<and> length out = 31"
proof -
  have h: "(2::nat) \<le> 32" "int 32 + 10 < 2 ^ 31" "ev_time long_event = Some noon"
    "0 \<le> ev_level long_event" "ev_level long_event < 6"
    by (simp_all add: long_event_def new_event_def)
  have m: "plain_vfmt (ev_fmt long_event) (ev_ap long_event) =
        Some ''0123456789012345678901234567890123456789'' \<and>
      32 \<le> length ''0123456789012345678901234567890123456789'' \<and>
      int (length ''0123456789012345678901234567890123456789'') < 2 ^ 31"
    by (simp add: long_event_def new_event_def plain_vfmt_def)
  from line_length_max [OF h, of plain_vfmt "\<lambda>_. NUL"] obtain buf' out where
    o: "stdout_callback 32 plain_vfmt (\<lambda>_. NUL) long_event = Some (buf', out)" "length out \<le> 32 - 1"
    and "\<forall>m. plain_vfmt (ev_fmt long_event) (ev_ap long_event) = Some m \<and> 32 \<le> length m \<and>
        int (length m) < 2 ^ 31 \<longrightarrow> length out = 32 - 1"
    by blast
  with m have "length out = 32 - 1" by blast
  with o show ?thesis by auto
qed

text \<open>
  C7 as stated fails: in a buffer of 32 bytes an event whose message has 40 characters is
  emitted as a line of 31 bytes, not 32.
\<close>

theorem line_length_capacity_counterexample:
  "map_option snd (stdout_callback 32 plain_vfmt (\<lambda>_. NUL) long_event) =
     Some ''12:34:56 ERROR main.c:11: 0123\<newline>'' \<and>
   map_option (\<lambda>r. length (snd r)) (stdout_callback 32 plain_vfmt (\<lambda>_. NUL) long_event) = Some 31 \<and>
   map_option (\<lambda>r. length (snd r)) (stdout_callback 32 plain_vfmt (\<lambda>_. NUL) long_event) \<noteq> Some 32"
  by code_simp

text \<open>
  C8, as amended: for every valid level, in a buffer of at least 17 bytes, the line
  begins with the time, a space, the name of the level as \<^verbatim>\<open>level_strings\<close> has it, and
  a space.  The LEVEL field is that name, not padded: 4 characters for INFO and WARN,
  5 for the other levels.
\<close>

theorem level_field_name:
  assumes "17 \<le> C" "int C + 10 < 2 ^ 31"
    and "ev_time ev = Some t" "0 \<le> ev_level ev" "ev_level ev < 6"
  shows "\<exists>buf' out. stdout_callback C vfmt buf ev = Some (buf', out) \<and>
     take (10 + length (level_strings ! nat (ev_level ev))) out =
       hms t @ '' '' @ level_strings ! nat (ev_level ev) @ '' '' \<and>
     level_field out = level_strings ! nat (ev_level ev) \<and>
     length (level_field out) = (if ev_level ev = 2 \<or> ev_level ev = 3 then 4 else 5)"
proof -
  let ?name = "level_strings ! nat (ev_level ev)"
  have lvl: "log_level_string (ev_level ev) = Some ?name"
    using assms(4,5) by (simp add: log_level_string_def level_strings_def)
  have c2: "2 \<le> C" "9 \<le> C" using assms(1) by simp_all
  from stdout_format_bounds [OF c2(1) assms(2,3) lvl, of vfmt buf]
  obtain w pos where f: "stdout_format C vfmt buf ev = Some (w, pos)" and b: "in_bounds C w"
    by blast
  let ?out = "semihosting_write (bytes w) pos"
  have cb: "stdout_callback C vfmt buf ev = Some (bytes w, ?out)"
    by (rule stdout_callback_of_format [OF f b])
  note nf = level_name_facts [OF assms(4,5)]
  define rest where "rest = c_str (ev_file ev) @ '':'' @ dec_int (sint (ev_line ev)) @ '': '' @
      msg_text (vfmt (ev_fmt ev) (ev_ap ev))"
  define pre where "pre = hms t @ '' '' @ ?name @ '' ''"
  have lt: "line_text t ?name (ev_file ev) (ev_line ev) (vfmt (ev_fmt ev) (ev_ap ev)) = pre @ rest"
    by (simp add: line_text_def nf(1) pre_def rest_def)
  have len: "length pre = 10 + length ?name" by (simp add: pre_def length_hms)
  have "length ?name \<le> 5" using nf(3) by (simp split: if_splits)
  with len have fits: "length pre \<le> C - 2" using assms(1) by linarith
  from stdout_format_line [OF c2(2) assms(2,3) lvl, of vfmt buf] f
  have "?out = take (C - 2) (pre @ rest) @ [CHR 0x0A]" by (auto simp add: lt)
  also have "take (C - 2) (pre @ rest) = pre @ take (C - 2 - length pre) rest"
    using fits by simp
  finally have out: "?out = pre @ take (C - 2 - length pre) rest @ [CHR 0x0A]" by simp
  have a: "take (10 + length ?name) ?out = hms t @ '' '' @ ?name @ '' ''"
    unfolding out using len by (simp add: pre_def)
  have "drop 9 ?out = ?name @ CHR '' '' # take (C - 2 - length pre) rest @ [CHR 0x0A]"
    unfolding out by (simp add: pre_def length_hms)
  then have fld: "level_field ?out = ?name"
    unfolding level_field_def using nf(2) by (auto simp add: takeWhile_tail)
  from cb a fld nf(3) show ?thesis by auto
qed

text \<open>
  An instance: an event of level 2 in a buffer of 64 bytes.
\<close>

theorem level_field_name_witness:
  "\<exists>buf' out. stdout_callback 64 plain_vfmt (\<lambda>_. NUL) info_event = Some (buf', out) \<and>
     take 14 out = ''12:34:56 INFO '' \<and> level_field out = ''INFO'' \<and> length (level_field out) = 4"
proof -
  have h: "(17::nat) \<le> 64" "int 64 + 10 < 2 ^ 31" "ev_time info_event = Some noon"
    "0 \<le> ev_level info_event" "ev_level info_event < 6"
    by (simp_all add: info_event_def new_event_def)
  have n: "level_strings ! nat (ev_level info_event) = ''INFO''" "ev_level info_event = 2"
    "hms noon = ''12:34:56''"
    by code_simp+
  have n': "level_strings ! 2 = ''INFO''" by (simp add: level_strings_def)
  from level_field_name [OF h, of plain_vfmt "\<lambda>_. NUL"]
  show ?thesis unfolding n by (simp add: n')
qed

text \<open>
  C8 as stated fails: at level 2 the LEVEL field of the line is \<^verbatim>\<open>INFO\<close>, 4 characters
  and not 5.
\<close>

theorem level_field_width_counterexample:
  "map_option (\<lambda>r. (snd r, level_field (snd r), length (level_field (snd r))))
     (stdout_callback 64 plain_vfmt (\<lambda>_. NUL) info_event) =
     Some (''12:34:56 INFO main.c:11: started\<newline>'', ''INFO'', 4)"
  by code_simp

text \<open>
  C9: in every state that a sequence of calls of the public operations reaches from the
  initial state, the registry is dense: an occupied slot has only occupied slots below
  it.  The entries the dispatch loop reaches are the occupied slots, all of them, and
  they are the registrations made with a function that is not null, in the order they
  were made (the first \<open>MAX_CALLBACKS\<close> of them); the loop calls the qualifying ones in
  that order.
\<close>

theorem registry_dense:
  assumes "run C vfmt init_state calls = Some L"
  shows "(\<forall>i<MAX_CALLBACKS. cb_fn (L_callbacks L i) \<noteq> NULL \<longrightarrow>
            (\<forall>j<i. cb_fn (L_callbacks L j) \<noteq> NULL)) \<and>
     registered L = take MAX_CALLBACKS (additions calls) \<and>
     (\<forall>i<MAX_CALLBACKS. cb_fn (L_callbacks L i) \<noteq> NULL \<longleftrightarrow> i < length (registered L)) \<and>
     (\<forall>i<length (registered L). registered L ! i = L_callbacks L i) \<and>
     observer_calls (dispatch_from now L level 0 ev) =
       map (\<lambda>cb. (cb_fn cb,
              ev\<lparr>ev_time := Some (case ev_time ev of None \<Rightarrow> now | Some t \<Rightarrow> t),
                 ev_udata := cb_udata cb\<rparr>))
         (filter (\<lambda>cb. cb_level cb \<le> level) (take MAX_CALLBACKS (additions calls)))"
proof -
  from run_registered [OF assms] obtain n where n: "filled n L"
    and reg: "registered L = take MAX_CALLBACKS (additions calls)" by blast
  from n have le: "n \<le> MAX_CALLBACKS" and occ: "\<forall>i<n. cb_fn (L_callbacks L i) \<noteq> NULL"
    and free: "\<forall>i. n \<le> i \<and> i < MAX_CALLBACKS \<longrightarrow> cb_fn (L_callbacks L i) = NULL"
    by (simp_all add: filled_def)
  have r: "registered L = map (L_callbacks L) [0 ..< n]" by (rule filled_registered [OF n])
  have dense: "\<forall>i<MAX_CALLBACKS. cb_fn (L_callbacks L i) \<noteq> NULL \<longrightarrow>
            (\<forall>j<i. cb_fn (L_callbacks L j) \<noteq> NULL)"
  proof (intro allI impI)
    fix i j assume i: "i < MAX_CALLBACKS" "cb_fn (L_callbacks L i) \<noteq> NULL" and j: "j < i"
    from i free have "i < n" by (cases "i < n") auto
    with j occ show "cb_fn (L_callbacks L j) \<noteq> NULL" by simp
  qed
  have len: "\<forall>i<MAX_CALLBACKS. cb_fn (L_callbacks L i) \<noteq> NULL \<longleftrightarrow> i < length (registered L)"
  proof (intro allI impI)
    fix i assume i: "i < MAX_CALLBACKS"
    show "cb_fn (L_callbacks L i) \<noteq> NULL \<longleftrightarrow> i < length (registered L)"
    proof (cases "i < n")
      case True
      with occ show ?thesis by (simp add: r)
    next
      case False
      with free i show ?thesis by (simp add: r)
    qed
  qed
  have nth: "\<forall>i<length (registered L). registered L ! i = L_callbacks L i"
    by (simp add: r)
  have "observer_calls (dispatch_from now L level 0 ev) =
       map (\<lambda>cb. (cb_fn cb,
              ev\<lparr>ev_time := Some (case ev_time ev of None \<Rightarrow> now | Some t \<Rightarrow> t),
                 ev_udata := cb_udata cb\<rparr>))
         (filter (\<lambda>cb. cb_level cb \<le> level) (registered L))"
    by (simp add: dispatch_from_calls registered_def)
  with dense reg len nth show ?thesis by simp
qed

text \<open>
  An instance: the example sequence of calls, whose null registration leaves no entry.
\<close>

theorem registry_dense_witness:
  "\<exists>L. run 64 plain_vfmt init_state setup_calls = Some L \<and>
     registered L =
       [\<lparr>cb_fn = 100, cb_udata = 1, cb_level = 3\<rparr>, \<lparr>cb_fn = 200, cb_udata = 2, cb_level = 4\<rparr>] \<and>
     list_all (\<lambda>i. cb_fn (L_callbacks L i) \<noteq> NULL \<longleftrightarrow> i < 2) [0 ..< MAX_CALLBACKS] \<and>
     observer_calls (dispatch_from noon L 3 0 info_event) =
       [(100, info_event\<lparr>ev_udata := 1\<rparr>)]"
proof -
  from run_setup_calls obtain L where L: "run 64 plain_vfmt init_state setup_calls = Some L" ..
  note t = registry_dense [OF L, of noon 3 info_event, unfolded additions_setup_calls]
  from t have r: "registered L =
       [\<lparr>cb_fn = 100, cb_udata = 1, cb_level = 3\<rparr>, \<lparr>cb_fn = 200, cb_udata = 2, cb_level = 4\<rparr>]"
    by blast
  from t have "\<forall>i<MAX_CALLBACKS. cb_fn (L_callbacks L i) \<noteq> NULL \<longleftrightarrow> i < length (registered L)"
    by blast
  then have o: "list_all (\<lambda>i. cb_fn (L_callbacks L i) \<noteq> NULL \<longleftrightarrow> i < 2) [0 ..< MAX_CALLBACKS]"
    unfolding r list_all_iff by (auto simp add: numeral_2_eq_2)
  from t have "observer_calls (dispatch_from noon L 3 0 info_event) =
       map (\<lambda>cb. (cb_fn cb,
              info_event\<lparr>ev_time := Some (case ev_time info_event of None \<Rightarrow> noon | Some t \<Rightarrow> t),
                 ev_udata := cb_udata cb\<rparr>))
         (filter (\<lambda>cb. cb_level cb \<le> 3)
            [\<lparr>cb_fn = 100, cb_udata = 1, cb_level = 3\<rparr>, \<lparr>cb_fn = 200, cb_udata = 2, cb_level = 4\<rparr>])"
    by blast
  then have d: "observer_calls (dispatch_from noon L 3 0 info_event) = [(100, info_event\<lparr>ev_udata := 1\<rparr>)]"
    by (simp add: info_event_def)
  from L r o d show ?thesis by blast
qed

text \<open>
  C10, as amended: registering a null function, in a table with an unoccupied slot,
  returns 0 and fills the first unoccupied slot, which still tests as unoccupied.  The
  entries the dispatch loop reaches are the same as before, every call of \<^verbatim>\<open>log_log\<close>
  has the same trace as before, and the next registration gives the same state and the
  same value as it would have given without the null registration.
\<close>

theorem null_registration_lost:
  assumes "\<exists>i<MAX_CALLBACKS. cb_fn (L_callbacks L i) = NULL"
  shows "\<exists>k<MAX_CALLBACKS.
     log_add_callback NULL udata level L =
       (L\<lparr>L_callbacks := (L_callbacks L)(k := \<lparr>cb_fn = NULL, cb_udata = udata, cb_level = level\<rparr>)\<rparr>, 0) \<and>
     cb_fn (L_callbacks (fst (log_add_callback NULL udata level L)) k) = NULL \<and>
     registered (fst (log_add_callback NULL udata level L)) = registered L \<and>
     map_option fst (log_log C vfmt now (fst (log_add_callback NULL udata level L)) lvl file line fmt ap) =
       map_option fst (log_log C vfmt now L lvl file line fmt ap) \<and>
     \<not> (\<exists>tr S ev. log_log C vfmt now (fst (log_add_callback NULL udata level L)) lvl file line fmt ap =
           Some (tr, S) \<and> ObserverCall NULL ev \<in> set tr) \<and>
     (\<forall>fn' udata' level'.
        log_add_callback fn' udata' level' (fst (log_add_callback NULL udata level L)) =
        log_add_callback fn' udata' level' L)"
proof -
  from assms obtain k where k: "k < MAX_CALLBACKS" "cb_fn (L_callbacks L k) = NULL"
      "\<forall>j<k. cb_fn (L_callbacks L j) \<noteq> NULL"
    using first_free_slot [of MAX_CALLBACKS "L_callbacks L"] by blast
  let ?cb = "\<lparr>cb_fn = NULL, cb_udata = udata, cb_level = level\<rparr>"
  let ?L = "L\<lparr>L_callbacks := (L_callbacks L)(k := ?cb)\<rparr>"
  have add: "log_add_callback fn' udata' level' L =
      (L\<lparr>L_callbacks := (L_callbacks L)(k := \<lparr>cb_fn = fn', cb_udata = udata', cb_level = level'\<rparr>)\<rparr>, 0)"
    for fn' udata' level'
    unfolding log_add_callback_def using k by (intro add_callback_from_free) auto
  have k': "cb_fn (L_callbacks ?L k) = NULL" "\<forall>j<k. cb_fn (L_callbacks ?L j) \<noteq> NULL"
    using k by simp_all
  have add': "log_add_callback fn' udata' level' ?L =
      (?L\<lparr>L_callbacks := (L_callbacks ?L)(k := \<lparr>cb_fn = fn', cb_udata = udata', cb_level = level'\<rparr>)\<rparr>, 0)"
    for fn' udata' level'
    unfolding log_add_callback_def using k(1) k' by (intro add_callback_from_free) auto
  have reg: "registered ?L = registered L"
    unfolding registered_first_free [OF k] registered_first_free [OF k(1) k'] by simp
  have disp: "dispatch_from now ?L lvl 0 ev = dispatch_from now L lvl 0 ev" for ev
    using k by (intro dispatch_from_cong) auto
  have lg: "map_option fst (log_log C vfmt now ?L lvl file line fmt ap) =
      map_option fst (log_log C vfmt now L lvl file line fmt ap)"
    by (rule log_log_trace_cong) (simp_all add: lock_def unlock_def disp)
  have nxt: "log_add_callback fn' udata' level' ?L = log_add_callback fn' udata' level' L"
    for fn' udata' level'
    unfolding add add' by simp
  have fst: "fst (log_add_callback NULL udata level L) = ?L" by (simp add: add)
  show ?thesis
  proof (intro exI [of _ k] conjI allI)
    show "k < MAX_CALLBACKS" by fact
    show "log_add_callback NULL udata level L = (?L, 0)" by (rule add)
    show "cb_fn (L_callbacks (fst (log_add_callback NULL udata level L)) k) = NULL"
      unfolding fst by (rule k')
    show "registered (fst (log_add_callback NULL udata level L)) = registered L"
      unfolding fst by (rule reg)
    show "map_option fst (log_log C vfmt now (fst (log_add_callback NULL udata level L)) lvl file line fmt ap) =
        map_option fst (log_log C vfmt now L lvl file line fmt ap)"
      unfolding fst by (rule lg)
    show "\<not> (\<exists>tr S ev. log_log C vfmt now (fst (log_add_callback NULL udata level L)) lvl file line fmt ap =
           Some (tr, S) \<and> ObserverCall NULL ev \<in> set tr)"
      using log_log_observer_nonnull by blast
    show "log_add_callback fn' udata' level' (fst (log_add_callback NULL udata level L)) =
        log_add_callback fn' udata' level' L" for fn' udata' level'
      unfolding fst by (rule nxt)
  qed
qed

text \<open>
  An instance: a null registration in the state with two observers.
\<close>

theorem null_registration_lost_witness:
  "\<exists>k<MAX_CALLBACKS.
     log_add_callback NULL 5 0 two_observers =
       (two_observers\<lparr>L_callbacks := (L_callbacks two_observers)
          (k := \<lparr>cb_fn = NULL, cb_udata = 5, cb_level = 0\<rparr>)\<rparr>, 0) \<and>
     cb_fn (L_callbacks (fst (log_add_callback NULL 5 0 two_observers)) k) = NULL \<and>
     registered (fst (log_add_callback NULL 5 0 two_observers)) =
       [\<lparr>cb_fn = 100, cb_udata = 1, cb_level = 3\<rparr>, \<lparr>cb_fn = 200, cb_udata = 2, cb_level = 4\<rparr>] \<and>
     map_option fst (log_log 64 plain_vfmt noon (fst (log_add_callback NULL 5 0 two_observers)) 4
         ''main.c'' 11 ''started'' []) =
       map_option fst (log_log 64 plain_vfmt noon two_observers 4 ''main.c'' 11 ''started'' []) \<and>
     log_add_callback 300 3 0 (fst (log_add_callback NULL 5 0 two_observers)) =
       log_add_callback 300 3 0 two_observers"
proof -
  have free: "\<exists>i<MAX_CALLBACKS. cb_fn (L_callbacks two_observers i) = NULL"
    by (intro exI [of _ 2]) (simp add: two_observers_def init_state_def MAX_CALLBACKS_def)
  from null_registration_lost [OF free, of 5 0 64 plain_vfmt noon 4 "''main.c''" 11 "''started''" "[]"]
  show ?thesis unfolding registered_two_observers by blast
qed

text \<open>
  C10 as stated fails: in a table whose 32 slots are occupied, registering a null
  function returns -1, not the success value, and fills no slot.
\<close>

theorem null_registration_full_counterexample:
  "log_add_callback NULL 5 0 full_state = (full_state, - 1) \<and>
   snd (log_add_callback NULL 5 0 full_state) \<noteq> 0"
proof -
  have "cb_fn (L_callbacks full_state j) \<noteq> NULL" for j
    by (simp add: full_state_def init_state_def NULL_def)
  then have "log_add_callback NULL 5 0 full_state = (full_state, - 1)"
    unfolding log_add_callback_def by (intro add_callback_from_full)
  then show ?thesis by simp
qed


end
